theory Spec2Isabelle
  imports Main "HOL-Library.AList"
begin

section \<open>Data model of the matchmaking service\<close>

text \<open>
  The embedding follows \<open>MatchmakingService\<close> (the class that starts at line 870 of
  \<open>src/unnamed/part_004\<close>). Times are JavaScript \<open>Date.now()\<close> readings in
  milliseconds, modelled as \<open>int\<close>. A numeric field that the code reads through
  \<open>x || 0\<close> may be absent from a document, so it is an \<open>int option\<close>.

  An \<open>async\<close> method is a function from the state before its call to the state after
  it: the service object, the browser runtime and the shared store are passed in and
  returned. One call reads the clock once (the argument \<open>now\<close>), and between its
  \<open>await\<close>s the store changes only through the call itself. What another client does
  in the meantime is a further operation on the store, before or after the call.
\<close>

type_synonym doc_id = string
type_synonym user_id = string

text \<open>The authenticated principal (\<open>auth.currentUser\<close>): its \<open>uid\<close> and optional \<open>email\<close>.\<close>

record user =
  uid :: user_id
  email :: "string option"

text \<open>A document of the collection \<open>matchmaking_queue\<close>.\<close>

record queue_entry =
  q_userId :: user_id
  q_username :: string
  q_rating :: "int option"
  q_timestamp :: "int option"
  q_status :: string
  q_lastHeartbeat :: "int option"
  q_sessionId :: string

text \<open>\<open>interface MatchmakingPlayer\<close>, \<open>interface Match\<close> (the \<open>id\<close> is the key of the
  document) and \<open>interface QueuePlayer\<close> (the caller's cached copy of a candidate).\<close>

record MatchmakingPlayer =
  p_userId :: user_id
  p_username :: string
  p_rating :: "int option"
  p_timestamp :: "int option"

datatype match_status = waiting | ready | in_progress | completed

record Match =
  player1 :: MatchmakingPlayer
  player2 :: MatchmakingPlayer
  status :: match_status
  createdAt :: "int option"

record QueuePlayer =
  o_id :: doc_id
  o_userId :: user_id
  o_username :: string
  o_rating :: int
  o_timestamp :: "int option"
  o_status :: string

subsection \<open>The shared document store\<close>

text \<open>
  Each collection is an association list from document ids to documents; the order of
  the list is the order in which a query returns the documents. The store may refuse a
  request (security rules, transport failure, contention): \<open>rejects\<close> says which.
\<close>

datatype request =
    ListQueue | ListMatches | GetQueue doc_id | AddQueue | UpdateQueue doc_id
  | DeleteQueue doc_id | DeleteMatch doc_id | SetMatch doc_id | Commit

record store =
  queue :: "(doc_id \<times> queue_entry) list"
  matches :: "(doc_id \<times> Match) list"
  rejects :: "request \<Rightarrow> bool"

text \<open>What a failed \<open>await\<close> throws: a refusal of the store, one of the \<open>Error\<close>s thrown in
  the transaction body, the \<open>TypeError\<close> of reading \<open>uid\<close> from a null user, or the error
  of \<open>transaction.set\<close> on a document with an undefined field.\<close>

datatype failure =
    store_rejected | opponent_removed | current_removed | opponent_not_searching
  | current_not_searching | stale_entry | type_error | undefined_field

definition getDoc :: "store \<Rightarrow> doc_id \<Rightarrow> failure + queue_entry option" where
  "getDoc s i = (if rejects s (GetQueue i) then Inl store_rejected else Inr (map_of (queue s) i))"

definition deleteDoc :: "store \<Rightarrow> doc_id \<Rightarrow> failure + store" where
  "deleteDoc s i =
     (if rejects s (DeleteQueue i) then Inl store_rejected
      else Inr (s\<lparr>queue := AList.delete i (queue s)\<rparr>))"

definition deleteMatchDoc :: "store \<Rightarrow> doc_id \<Rightarrow> failure + store" where
  "deleteMatchDoc s i =
     (if rejects s (DeleteMatch i) then Inl store_rejected
      else Inr (s\<lparr>matches := AList.delete i (matches s)\<rparr>))"

text \<open>\<open>updateDoc\<close> changes fields of an existing document and fails on a missing one.\<close>

definition updateDoc :: "store \<Rightarrow> doc_id \<Rightarrow> (queue_entry \<Rightarrow> queue_entry) \<Rightarrow> failure + store" where
  "updateDoc s i f =
     (if rejects s (UpdateQueue i) then Inl store_rejected
      else case map_of (queue s) i of
             None \<Rightarrow> Inl store_rejected
           | Some d \<Rightarrow> Inr (s\<lparr>queue := AList.update i (f d) (queue s)\<rparr>))"

text \<open>\<open>addDoc\<close> stores a document under the id \<open>i\<close> that the store assigns.\<close>

definition addDoc :: "store \<Rightarrow> doc_id \<Rightarrow> queue_entry \<Rightarrow> failure + store" where
  "addDoc s i d =
     (if rejects s AddQueue then Inl store_rejected
      else Inr (s\<lparr>queue := AList.update i d (queue s)\<rparr>))"

subsection \<open>JavaScript truthiness of the fields the code reads\<close>

definition truthy :: "int option \<Rightarrow> bool" where
  "truthy x = (case x of None \<Rightarrow> False | Some v \<Rightarrow> v \<noteq> 0)"

definition js_or :: "int option \<Rightarrow> int option \<Rightarrow> int option" where
  "js_or a b = (if truthy a then a else b)"

definition or_zero :: "int option \<Rightarrow> int" where
  "or_zero x = (case x of None \<Rightarrow> 0 | Some v \<Rightarrow> v)"

text \<open>\<open>data.lastHeartbeat || data.timestamp || 0\<close>\<close>

definition lastSeen :: "queue_entry \<Rightarrow> int" where
  "lastSeen d = or_zero (js_or (q_lastHeartbeat d) (q_timestamp d))"

text \<open>A string or null that JavaScript takes as true: neither \<open>null\<close> nor empty.\<close>

definition present :: "string option \<Rightarrow> bool" where
  "present x = (case x of None \<Rightarrow> False | Some v \<Rightarrow> v \<noteq> [])"

text \<open>\<open>user.email?.split('@')[0] || 'Player'\<close>\<close>

definition displayName :: "user \<Rightarrow> string" where
  "displayName u =
     (case email u of
        None \<Rightarrow> ''Player''
      | Some e \<Rightarrow> (let n = takeWhile (\<lambda>c. c \<noteq> CHR ''@'') e in if n = [] then ''Player'' else n))"

subsection \<open>The service object and the browser runtime\<close>

text \<open>
  The fields of \<open>MatchmakingService\<close>. A listener field holds the closure that
  unsubscribes; it is modelled by the list of subscription handles the closure releases.
  The runtime holds the interval timers and store subscriptions that are active.
\<close>

record service =
  currentQueueId :: "doc_id option"
  currentUserId :: "user_id option"
  matchListener :: "nat list option"
  queueListener :: "nat list option"
  isMatched :: bool
  heartbeatInterval :: "nat option"
  isJoiningQueue :: bool
  isCreatingMatch :: bool
  joinedAt :: "int option"

record runtime =
  timers :: "nat set"
  subscriptions :: "nat set"

section \<open>Operations\<close>

subsection \<open>\<open>stopHeartbeat\<close> and \<open>cleanup\<close>\<close>

definition stopHeartbeat :: "service \<times> runtime \<Rightarrow> service \<times> runtime" where
  "stopHeartbeat = (\<lambda>(svc, rt).
     case heartbeatInterval svc of
       None \<Rightarrow> (svc, rt)
     | Some t \<Rightarrow> (svc\<lparr>heartbeatInterval := None\<rparr>, rt\<lparr>timers := timers rt - {t}\<rparr>))"

definition unsubscribe :: "nat list \<Rightarrow> runtime \<Rightarrow> runtime" where
  "unsubscribe hs rt = rt\<lparr>subscriptions := subscriptions rt - set hs\<rparr>"

definition cleanup :: "service \<times> runtime \<Rightarrow> service \<times> runtime" where
  "cleanup c =
     (let (svc1, rt1) = stopHeartbeat c;
          (svc2, rt2) = (case matchListener svc1 of
                           None \<Rightarrow> (svc1, rt1)
                         | Some hs \<Rightarrow> (svc1\<lparr>matchListener := None\<rparr>, unsubscribe hs rt1));
          (svc3, rt3) = (case queueListener svc2 of
                           None \<Rightarrow> (svc2, rt2)
                         | Some hs \<Rightarrow> (svc2\<lparr>queueListener := None\<rparr>, unsubscribe hs rt2))
      in (svc3\<lparr>currentQueueId := None, currentUserId := None,
               isJoiningQueue := False, isCreatingMatch := False\<rparr>, rt3))"

subsection \<open>\<open>isValidOpponent\<close>\<close>

definition isValidOpponent :: "service \<Rightarrow> store \<Rightarrow> int \<Rightarrow> QueuePlayer \<Rightarrow> user_id \<Rightarrow> bool" where
  "isValidOpponent svc s now opponent currentUserId' =
     (if o_userId opponent = currentUserId' \<or> Some (o_id opponent) = currentQueueId svc then False
      else case getDoc s (o_id opponent) of
             Inl e \<Rightarrow> False
           | Inr None \<Rightarrow> False
           | Inr (Some data) \<Rightarrow>
               if now - lastSeen data > 30000 then False
               else if q_status data \<noteq> ''searching'' then False
               else True)"

subsection \<open>The transaction of \<open>createMatchFromQueue\<close>\<close>

text \<open>
  The body passed to \<open>runTransaction\<close>, run atomically on the store: \<open>cur\<close> is
  \<open>this.currentQueueId\<close>, \<open>mid\<close> the id of \<open>doc(this.matchesRef)\<close>, \<open>now\<close> the reading of
  \<open>Date.now()\<close> in the body. The writes are applied together or not at all.
  \<open>transaction.set\<close> throws on an undefined field value (the store is created by
  \<open>getFirestore(app)\<close> with default settings); the field of \<open>matchData\<close> that the data
  model leaves optional is \<open>player2.timestamp\<close>, copied from the cached candidate.
\<close>

definition matchData :: "user \<Rightarrow> queue_entry \<Rightarrow> QueuePlayer \<Rightarrow> int \<Rightarrow> Match" where
  "matchData u oppData opponent now =
     \<lparr>player1 = \<lparr>p_userId = uid u, p_username = displayName u,
                  p_rating = Some 1000, p_timestamp = Some now\<rparr>,
      player2 = \<lparr>p_userId = o_userId opponent,
                  p_username = (if q_username oppData \<noteq> [] then q_username oppData
                                else o_username opponent),
                  p_rating = Some (o_rating opponent), p_timestamp = o_timestamp opponent\<rparr>,
      status = ready, createdAt = Some now\<rparr>"

definition runTransaction ::
  "store \<Rightarrow> user option \<Rightarrow> doc_id \<Rightarrow> QueuePlayer \<Rightarrow> int \<Rightarrow> doc_id \<Rightarrow> failure + store" where
  "runTransaction s currentUser cur opponent now mid =
     (case getDoc s (o_id opponent) of Inl e \<Rightarrow> Inl e | Inr oppSnap \<Rightarrow>
      case getDoc s cur of Inl e \<Rightarrow> Inl e | Inr curSnap \<Rightarrow>
      case oppSnap of None \<Rightarrow> Inl opponent_removed | Some oppData \<Rightarrow>
      case curSnap of None \<Rightarrow> Inl current_removed | Some curData \<Rightarrow>
        if q_status oppData \<noteq> ''searching'' then Inl opponent_not_searching
        else if q_status curData \<noteq> ''searching'' then Inl current_not_searching
        else if now - lastSeen oppData > 10000 \<or> now - lastSeen curData > 10000
          then Inl stale_entry
        else case currentUser of None \<Rightarrow> Inl type_error | Some u \<Rightarrow>
          if o_timestamp opponent = None then Inl undefined_field
          else if rejects s (SetMatch mid) \<or> rejects s (DeleteQueue cur) \<or> rejects s Commit
            then Inl store_rejected
          else Inr (s\<lparr>matches := AList.update mid (matchData u oppData opponent now) (matches s),
                      queue := AList.delete cur (queue s)\<rparr>))"

subsection \<open>\<open>createMatchFromQueue\<close>\<close>

text \<open>\<open>try { ... } catch (error) { ... }\<close>: the handler runs on a thrown failure.\<close>

definition try_catch :: "failure + 'a \<Rightarrow> (failure \<Rightarrow> failure + 'a) \<Rightarrow> failure + 'a" where
  "try_catch body handler = (case body of Inl e \<Rightarrow> handler e | Inr x \<Rightarrow> Inr x)"

definition createMatchFromQueue ::
  "service \<times> runtime \<Rightarrow> store \<Rightarrow> user option \<Rightarrow> QueuePlayer \<Rightarrow> int \<Rightarrow> doc_id
     \<Rightarrow> failure + (service \<times> runtime) \<times> store" where
  "createMatchFromQueue c s currentUser opponent now mid =
     (let (svc, rt) = c in
      if isMatched svc then Inr (c, s)
      else
        let svc1 = svc\<lparr>isCreatingMatch := True\<rparr> in
        case currentQueueId svc1 of
          None \<Rightarrow> Inr ((svc1\<lparr>isCreatingMatch := False\<rparr>, rt), s)
        | Some cur \<Rightarrow>
            if cur = [] then Inr ((svc1\<lparr>isCreatingMatch := False\<rparr>, rt), s)
            else
              try_catch
                (case runTransaction s currentUser cur opponent now mid of
                   Inl e \<Rightarrow> Inl e
                 | Inr s' \<Rightarrow> Inr (cleanup (svc1\<lparr>isMatched := True\<rparr>, rt), s'))
                (\<lambda>e. Inr ((svc1\<lparr>isMatched := False, isCreatingMatch := False\<rparr>, rt), s)))"

subsection \<open>The match listeners: \<open>setupMatchListeners\<close> and \<open>handleMatch\<close>\<close>

text \<open>
  \<open>setupMatchListeners\<close> captures \<open>this.joinedAt ?? Date.now()\<close> in the closure
  \<open>handleMatch\<close> and registers two subscriptions (handles \<open>h1\<close>, \<open>h2\<close>); the result
  carries the captured value. The closure's flag \<open>hasFoundMatch\<close> starts false.
\<close>

definition setupMatchListeners ::
  "service \<times> runtime \<Rightarrow> int \<Rightarrow> nat \<Rightarrow> nat \<Rightarrow> (service \<times> runtime) \<times> int" where
  "setupMatchListeners c now h1 h2 =
     (let (svc, rt) = c;
          joinedAt' = (case joinedAt svc of None \<Rightarrow> now | Some j \<Rightarrow> j)
      in ((svc\<lparr>matchListener := Some [h1, h2]\<rparr>,
           rt\<lparr>subscriptions := subscriptions rt \<union> {h1, h2}\<rparr>), joinedAt'))"

text \<open>The state a match event acts on: the service, the runtime and \<open>hasFoundMatch\<close>.
  The second component of a result lists the payloads passed to \<open>onMatchFound\<close>.\<close>

type_synonym listener_state = "(service \<times> runtime) \<times> bool"

definition handleMatch ::
  "int \<Rightarrow> doc_id \<times> Match \<Rightarrow> listener_state \<Rightarrow> listener_state \<times> (doc_id \<times> Match) list" where
  "handleMatch joinedAt' m st =
     (let ((svc, rt), hasFoundMatch) = st in
      if or_zero (createdAt (snd m)) \<le> joinedAt' then (st, [])
      else if \<not> isMatched svc \<and> \<not> hasFoundMatch
        then ((cleanup (svc\<lparr>isMatched := True\<rparr>, rt), True), [m])
      else (st, []))"

datatype change_type = added | modified | removed

text \<open>The snapshot callback of either match query: \<open>snapshot.docChanges().forEach(...)\<close>.\<close>

fun onMatchSnapshot ::
  "int \<Rightarrow> (change_type \<times> doc_id \<times> Match) list \<Rightarrow> listener_state
     \<Rightarrow> listener_state \<times> (doc_id \<times> Match) list" where
  "onMatchSnapshot joinedAt' [] st = (st, [])"
| "onMatchSnapshot joinedAt' ((ty, i, m) # changes) st =
     (if ty = added \<and> \<not> snd st
      then (let (st1, calls1) = handleMatch joinedAt' (i, m) st;
                (st2, calls2) = onMatchSnapshot joinedAt' changes st1
            in (st2, calls1 @ calls2))
      else onMatchSnapshot joinedAt' changes st)"

subsection \<open>Discovery: \<open>scanQueueForOpponents\<close> and the queue listener\<close>

text \<open>The \<open>QueuePlayer\<close> built from a queue document, with \<open>data.rating || 1000\<close>.\<close>

definition potentialOpponent :: "doc_id \<Rightarrow> queue_entry \<Rightarrow> QueuePlayer" where
  "potentialOpponent i data =
     \<lparr>o_id = i, o_userId = q_userId data, o_username = q_username data,
      o_rating = (if truthy (q_rating data) then or_zero (q_rating data) else 1000),
      o_timestamp = q_timestamp data, o_status = q_status data\<rparr>"

text \<open>
  The step both loops take on a candidate that is not the caller's: set
  \<open>isCreatingMatch\<close>, validate, and either create the match (the loop then breaks: first
  component true) or reset the flag and go on. \<open>authUser\<close> is \<open>auth.currentUser\<close>.
  Neither \<open>isValidOpponent\<close> nor \<open>createMatchFromQueue\<close> throws, so the \<open>catch\<close> of the
  loops is never entered.
\<close>

definition tryCandidate ::
  "service \<times> runtime \<Rightarrow> store \<Rightarrow> user option \<Rightarrow> user_id \<Rightarrow> int \<Rightarrow> doc_id
     \<Rightarrow> doc_id \<Rightarrow> queue_entry \<Rightarrow> bool \<times> (service \<times> runtime) \<times> store" where
  "tryCandidate c s authUser userId now mid i data =
     (let (svc, rt) = c;
          svc1 = svc\<lparr>isCreatingMatch := True\<rparr>;
          opponent = potentialOpponent i data
      in if isValidOpponent svc1 s now opponent userId
         then (case createMatchFromQueue (svc1, rt) s authUser opponent now mid of
                 Inr r \<Rightarrow> (True, r)
               | Inl e \<Rightarrow> (False, (svc1\<lparr>isCreatingMatch := False\<rparr>, rt), s))
         else (False, (svc1\<lparr>isCreatingMatch := False\<rparr>, rt), s))"

fun scanLoop ::
  "(doc_id \<times> queue_entry) list \<Rightarrow> service \<times> runtime \<Rightarrow> store \<Rightarrow> user option \<Rightarrow> user_id
     \<Rightarrow> int \<Rightarrow> doc_id \<Rightarrow> (service \<times> runtime) \<times> store" where
  "scanLoop [] c s authUser userId now mid = (c, s)"
| "scanLoop ((i, data) # ds) c s authUser userId now mid =
     (if isMatched (fst c) \<or> isCreatingMatch (fst c) then (c, s)
      else if Some i = currentQueueId (fst c) then scanLoop ds c s authUser userId now mid
      else if q_userId data = userId then scanLoop ds c s authUser userId now mid
      else case tryCandidate c s authUser userId now mid i data of
             (True, r) \<Rightarrow> r
           | (False, c', s') \<Rightarrow> scanLoop ds c' s' authUser userId now mid)"

definition scanQueueForOpponents ::
  "service \<times> runtime \<Rightarrow> store \<Rightarrow> user option \<Rightarrow> user_id \<Rightarrow> int \<Rightarrow> doc_id
     \<Rightarrow> (service \<times> runtime) \<times> store" where
  "scanQueueForOpponents c s authUser userId now mid =
     (if \<not> present (currentQueueId (fst c)) \<or> isMatched (fst c) \<or> isCreatingMatch (fst c)
        then (c, s)
      else if rejects s ListQueue then (((fst c)\<lparr>isCreatingMatch := False\<rparr>, snd c), s)
      else scanLoop (filter (\<lambda>(i, d). q_status d = ''searching'') (queue s))
             c s authUser userId now mid)"

text \<open>The callback of \<open>setupQueueListener\<close> on a snapshot with the given changes.\<close>

fun listenerLoop ::
  "(change_type \<times> doc_id \<times> queue_entry) list \<Rightarrow> service \<times> runtime \<Rightarrow> store \<Rightarrow> user option
     \<Rightarrow> user_id \<Rightarrow> int \<Rightarrow> doc_id \<Rightarrow> (service \<times> runtime) \<times> store" where
  "listenerLoop [] c s authUser userId now mid = (c, s)"
| "listenerLoop ((ty, i, data) # changes) c s authUser userId now mid =
     (if ty = added \<and> \<not> isCreatingMatch (fst c) then
        if Some i = currentQueueId (fst c) then listenerLoop changes c s authUser userId now mid
        else if q_userId data = userId then listenerLoop changes c s authUser userId now mid
        else case tryCandidate c s authUser userId now mid i data of
               (True, r) \<Rightarrow> r
             | (False, c', s') \<Rightarrow> listenerLoop changes c' s' authUser userId now mid
      else listenerLoop changes c s authUser userId now mid)"

definition onQueueSnapshot ::
  "(change_type \<times> doc_id \<times> queue_entry) list \<Rightarrow> service \<times> runtime \<Rightarrow> store \<Rightarrow> user option
     \<Rightarrow> user_id \<Rightarrow> int \<Rightarrow> doc_id \<Rightarrow> (service \<times> runtime) \<times> store" where
  "onQueueSnapshot changes c s authUser userId now mid =
     (if isMatched (fst c) \<or> \<not> present (currentQueueId (fst c)) \<or> isCreatingMatch (fst c)
        then (c, s)
      else listenerLoop changes c s authUser userId now mid)"

subsection \<open>\<open>upsertQueueEntry\<close>\<close>

text \<open>Decimal digits of a number, for the template string \<open>`${user.uid}_${Date.now()}`\<close>.\<close>

fun digits :: "nat \<Rightarrow> string" where
  "digits n = (if n < 10 then [char_of (48 + n)] else digits (n div 10) @ [char_of (48 + n mod 10)])"

declare digits.simps [simp del]

definition showInt :: "int \<Rightarrow> string" where
  "showInt i = (if i < 0 then CHR ''-'' # digits (nat (- i)) else digits (nat i))"

definition sessionId :: "user \<Rightarrow> int \<Rightarrow> string" where
  "sessionId u now = uid u @ ''_'' @ showInt now"

text \<open>The document \<open>addDoc\<close> receives, and the fields \<open>updateDoc\<close> overwrites. The calls of
  \<open>Date.now()\<close> inside one object literal are one reading, \<open>now\<close>.\<close>

definition newEntry :: "user \<Rightarrow> int \<Rightarrow> queue_entry" where
  "newEntry u now =
     \<lparr>q_userId = uid u, q_username = displayName u, q_rating = Some 1000,
      q_timestamp = Some now, q_status = ''searching'', q_lastHeartbeat = Some now,
      q_sessionId = sessionId u now\<rparr>"

definition refresh :: "user \<Rightarrow> int \<Rightarrow> queue_entry \<Rightarrow> queue_entry" where
  "refresh u now d =
     d\<lparr>q_lastHeartbeat := Some now, q_timestamp := Some now, q_status := ''searching'',
       q_sessionId := sessionId u now\<rparr>"

text \<open>The loop that picks \<open>newestDocId\<close> (started with \<open>null\<close> and 0), and the loop that
  deletes the other documents of the snapshot, ignoring a failed delete.\<close>

fun newest ::
  "(doc_id \<times> queue_entry) list \<Rightarrow> doc_id option \<times> int \<Rightarrow> doc_id option \<times> int" where
  "newest [] acc = acc"
| "newest ((i, data) # ds) (newestDocId, newestTimestamp) =
     (let ts = or_zero (q_timestamp data) in
      if ts > newestTimestamp then newest ds (Some i, ts)
      else newest ds (newestDocId, newestTimestamp))"

fun deleteOthers :: "(doc_id \<times> queue_entry) list \<Rightarrow> doc_id option \<Rightarrow> store \<Rightarrow> store" where
  "deleteOthers [] newestDocId s = s"
| "deleteOthers ((i, data) # ds) newestDocId s =
     (if Some i \<noteq> newestDocId
      then (case deleteDoc s i of
              Inl e \<Rightarrow> deleteOthers ds newestDocId s
            | Inr s' \<Rightarrow> deleteOthers ds newestDocId s')
      else deleteOthers ds newestDocId s)"

text \<open>The query \<open>userId == user.uid\<close> and \<open>status == 'searching'\<close>.\<close>

definition searchingEntriesOf :: "user_id \<Rightarrow> store \<Rightarrow> (doc_id \<times> queue_entry) list" where
  "searchingEntriesOf u s =
     filter (\<lambda>(i, d). q_userId d = u \<and> q_status d = ''searching'') (queue s)"

text \<open>\<open>newId\<close> is the id the store assigns if a document is added. The result is the
  returned id (\<open>newestDocId!\<close>, which is null when no timestamp was above 0) and the store.\<close>

definition upsertQueueEntry ::
  "store \<Rightarrow> user \<Rightarrow> int \<Rightarrow> doc_id \<Rightarrow> failure + doc_id option \<times> store" where
  "upsertQueueEntry s u now newId =
     (if rejects s ListQueue then Inl store_rejected
      else
        let docs = searchingEntriesOf (uid u) s in
        if docs \<noteq> [] then
          let newestDocId = fst (newest docs (None, 0)) in
          case (case newestDocId of
                  None \<Rightarrow> Inr (None, s)
                | Some k \<Rightarrow>
                    if k = [] then Inr (newestDocId, s)
                    else (case updateDoc s k (refresh u now) of
                            Inr s1 \<Rightarrow> Inr (newestDocId, s1)
                          | Inl e \<Rightarrow>
                              (case addDoc s newId (newEntry u now) of
                                 Inl e' \<Rightarrow> Inl e'
                               | Inr s1 \<Rightarrow> Inr (Some newId, s1)))) of
            Inl e \<Rightarrow> Inl e
          | Inr (keep, s1) \<Rightarrow> Inr (keep, deleteOthers docs keep s1)
        else
          case addDoc s newId (newEntry u now) of
            Inl e \<Rightarrow> Inl e
          | Inr s1 \<Rightarrow> Inr (Some newId, s1))"


text \<open>Document ids are unique within the collection and never empty.\<close>

definition wf_store :: "store \<Rightarrow> bool" where
  "wf_store s = (distinct (map fst (queue s)) \<and> [] \<notin> fst ` set (queue s))"

subsection \<open>\<open>removeFromQueue\<close>, \<open>leaveQueue\<close> and \<open>cleanupEverything\<close>\<close>

definition removeFromQueue :: "store \<Rightarrow> doc_id option \<Rightarrow> store" where
  "removeFromQueue s queueId =
     (case queueId of
        None \<Rightarrow> s
      | Some q \<Rightarrow> if q = [] then s
                  else (case deleteDoc s q of Inl e \<Rightarrow> s | Inr s' \<Rightarrow> s'))"

definition leaveQueue :: "service \<times> runtime \<Rightarrow> store \<Rightarrow> (service \<times> runtime) \<times> store" where
  "leaveQueue c s = (cleanup c, removeFromQueue s (currentQueueId (fst c)))"

text \<open>\<open>age > 30000\<close> with \<open>age = now - (data.lastHeartbeat || data.timestamp)\<close>; the age is
  \<open>NaN\<close>, and the test false, when both fields are absent.\<close>

definition staleForCleanup :: "int \<Rightarrow> queue_entry \<Rightarrow> bool" where
  "staleForCleanup now data =
     (case js_or (q_lastHeartbeat data) (q_timestamp data) of
        None \<Rightarrow> False
      | Some t \<Rightarrow> now - t > 30000)"

text \<open>The two loops of \<open>cleanupEverything\<close>; a delete the store refuses is logged and
  skipped.\<close>

fun deleteStaleQueue :: "(doc_id \<times> queue_entry) list \<Rightarrow> int \<Rightarrow> store \<Rightarrow> store" where
  "deleteStaleQueue [] now s = s"
| "deleteStaleQueue ((i, data) # ds) now s =
     (if staleForCleanup now data
      then (case deleteDoc s i of
              Inl e \<Rightarrow> deleteStaleQueue ds now s
            | Inr s' \<Rightarrow> deleteStaleQueue ds now s')
      else deleteStaleQueue ds now s)"

fun deleteOldMatches :: "(doc_id \<times> Match) list \<Rightarrow> store \<Rightarrow> store" where
  "deleteOldMatches [] s = s"
| "deleteOldMatches ((i, m) # ms) s =
     (case deleteMatchDoc s i of
        Inl e \<Rightarrow> deleteOldMatches ms s
      | Inr s' \<Rightarrow> deleteOldMatches ms s')"

text \<open>The matches are those of the query \<open>createdAt < now - 60000\<close>. A refused listing ends
  the function through its outer \<open>catch\<close>, with what was deleted so far.\<close>

definition cleanupEverything :: "store \<Rightarrow> int \<Rightarrow> store" where
  "cleanupEverything s now =
     (if rejects s ListQueue then s
      else
        let s1 = deleteStaleQueue (queue s) now s in
        if rejects s1 ListMatches then s1
        else deleteOldMatches
               (filter (\<lambda>(i, m). case createdAt m of None \<Rightarrow> False | Some t \<Rightarrow> t < now - 60000)
                  (matches s1)) s1)"

subsection \<open>The heartbeat\<close>

text \<open>One firing of the interval timer that \<open>startHeartbeat\<close> installs.\<close>

definition heartbeatTick ::
  "service \<times> runtime \<Rightarrow> store \<Rightarrow> int \<Rightarrow> (service \<times> runtime) \<times> store" where
  "heartbeatTick c s now =
     (case currentQueueId (fst c) of
        None \<Rightarrow> (c, s)
      | Some q \<Rightarrow>
          if q \<noteq> [] \<and> \<not> isMatched (fst c)
          then (case updateDoc s q (\<lambda>d. d\<lparr>q_lastHeartbeat := Some now\<rparr>) of
                  Inr s' \<Rightarrow> (c, s')
                | Inl e \<Rightarrow> (cleanup c, s))
          else (c, s))"

subsection \<open>Schedules of store operations\<close>

text \<open>
  Clients act on the shared store one operation at a time: the store runs each
  transaction atomically, so concurrent match-creation attempts take effect in some
  serial order, interleaved with heartbeats and departures of any client. An
  \<open>Attempt\<close> is the transaction of \<open>createMatchFromQueue\<close> with the caller's user,
  \<open>currentQueueId\<close>, cached candidate, clock reading and new match id. \<open>runEvents\<close>
  returns the final store and the number of transactions that committed.
\<close>

datatype event =
    Attempt "user option" doc_id QueuePlayer int doc_id
  | Heartbeat "service \<times> runtime" int
  | Leave "service \<times> runtime"

fun runEvents :: "store \<Rightarrow> event list \<Rightarrow> store \<times> nat" where
  "runEvents s [] = (s, 0)"
| "runEvents s (Attempt currentUser cur opponent now mid # evs) =
     (case runTransaction s currentUser cur opponent now mid of
        Inl e \<Rightarrow> runEvents s evs
      | Inr s' \<Rightarrow> (let (s'', n) = runEvents s' evs in (s'', Suc n)))"
| "runEvents s (Heartbeat c now # evs) = runEvents (snd (heartbeatTick c s now)) evs"
| "runEvents s (Leave c # evs) = runEvents (snd (leaveQueue c s)) evs"

text \<open>
  The events of two principals with user ids \<open>x\<close> and \<open>y\<close> whose queue entries are \<open>qx\<close>
  and \<open>qy\<close>: an attempt is made by one of them, signed in, from its own entry, on a
  cached copy of the other's entry (the copy carries that entry's id and user id).
\<close>

fun between :: "user_id \<Rightarrow> doc_id \<Rightarrow> user_id \<Rightarrow> doc_id \<Rightarrow> event \<Rightarrow> bool" where
  "between x qx y qy (Attempt currentUser cur opponent now mid) =
     (map_option uid currentUser = Some x \<and> cur = qx \<and>
        o_id opponent = qy \<and> o_userId opponent = y \<or>
      map_option uid currentUser = Some y \<and> cur = qy \<and>
        o_id opponent = qx \<and> o_userId opponent = x)"
| "between x qx y qy (Heartbeat c now) = True"
| "between x qx y qy (Leave c) = True"

text \<open>
  A match document references both principals when they are its two players, in either
  order. \<open>createdMatches x y s s'\<close> lists the match documents of the store \<open>s'\<close> that
  reference both and were not in the store \<open>s\<close>.
\<close>

definition referencesBoth :: "user_id \<Rightarrow> user_id \<Rightarrow> Match \<Rightarrow> bool" where
  "referencesBoth x y m =
     (p_userId (player1 m) = x \<and> p_userId (player2 m) = y \<or>
      p_userId (player1 m) = y \<and> p_userId (player2 m) = x)"

definition createdMatches ::
  "user_id \<Rightarrow> user_id \<Rightarrow> store \<Rightarrow> store \<Rightarrow> (doc_id \<times> Match) list" where
  "createdMatches x y s s' =
     filter (\<lambda>(k, m). referencesBoth x y m \<and> map_of (matches s) k \<noteq> Some m) (matches s')"

section \<open>Example inputs\<close>

text \<open>Concrete principals, documents and states at which the theorems below are evaluated.\<close>

definition ex_alice :: user where
  "ex_alice = \<lparr>uid = ''alice'', email = Some ''alice@example.org''\<rparr>"

definition ex_bob :: user where
  "ex_bob = \<lparr>uid = ''bob'', email = Some ''bob@example.org''\<rparr>"

definition ex_entry :: "user_id \<Rightarrow> int \<Rightarrow> queue_entry" where
  "ex_entry u t =
     \<lparr>q_userId = u, q_username = u, q_rating = Some 1000, q_timestamp = Some t,
      q_status = ''searching'', q_lastHeartbeat = Some t, q_sessionId = u\<rparr>"

definition ex_store :: store where
  "ex_store = \<lparr>queue = [(''qa'', ex_entry ''alice'' 50000),
                        (''qb'', (ex_entry ''bob'' 49000)\<lparr>q_rating := Some 1500\<rparr>)],
               matches = [], rejects = (\<lambda>r. False)\<rparr>"

definition ex_cached :: QueuePlayer where
  "ex_cached = \<lparr>o_id = ''qb'', o_userId = ''bob'', o_username = ''bobby'', o_rating = 1000,
                 o_timestamp = Some 49000, o_status = ''searching''\<rparr>"

definition ex_service :: service where
  "ex_service = \<lparr>currentQueueId = Some ''qa'', currentUserId = Some ''alice'',
                  matchListener = Some [1, 2], queueListener = Some [3], isMatched = False,
                  heartbeatInterval = Some 7, isJoiningQueue = False, isCreatingMatch = False,
                  joinedAt = Some 48000\<rparr>"

definition ex_runtime :: runtime where
  "ex_runtime = \<lparr>timers = {7}, subscriptions = {1, 2, 3}\<rparr>"

definition ex_old_match :: Match where
  "ex_old_match =
     \<lparr>player1 = \<lparr>p_userId = ''carol'', p_username = ''carol'', p_rating = Some 1000,
                  p_timestamp = Some 47000\<rparr>,
      player2 = \<lparr>p_userId = ''alice'', p_username = ''alice'', p_rating = Some 1000,
                  p_timestamp = Some 46000\<rparr>,
      status = ready, createdAt = Some 47000\<rparr>"

definition ex_dup :: store where
  "ex_dup = \<lparr>queue = [(''q1'', ex_entry ''alice'' 40000), (''qb'', ex_entry ''bob'' 49000),
                      (''q2'', ex_entry ''alice'' 45000), (''q3'', ex_entry ''alice'' 45000)],
             matches = [], rejects = (\<lambda>r. False)\<rparr>"

definition ex_cached_alice :: QueuePlayer where
  "ex_cached_alice = \<lparr>o_id = ''qa'', o_userId = ''alice'', o_username = ''alice'', o_rating = 1000,
                 o_timestamp = Some 50000, o_status = ''searching''\<rparr>"

definition ex_schedule :: "event list" where
  "ex_schedule =
     [Attempt (Some ex_bob) ''qb'' ex_cached_alice 51000 ''m2'',
      Heartbeat (ex_service, ex_runtime) 51001,
      Attempt (Some ex_alice) ''qa'' ex_cached 51002 ''m1'',
      Attempt (Some ex_bob) ''qb'' ex_cached_alice 51003 ''m3'']"

definition ex_carol_dave :: Match where
  "ex_carol_dave =
     \<lparr>player1 = \<lparr>p_userId = ''carol'', p_username = ''carol'', p_rating = Some 1000,
                  p_timestamp = Some 30000\<rparr>,
      player2 = \<lparr>p_userId = ''dave'', p_username = ''dave'', p_rating = Some 1000,
                  p_timestamp = Some 29000\<rparr>,
      status = ready, createdAt = Some 30000\<rparr>"

definition ex_abandoned :: store where
  "ex_abandoned = \<lparr>queue = [(''qa'', ex_entry ''alice'' 95000), (''qb'', ex_entry ''bob'' 49000)],
                   matches = [(''m0'', ex_carol_dave)], rejects = (\<lambda>r. False)\<rparr>"

text \<open>
  The match document that the scan of the session that joined as \<open>alice\<close> writes over
  \<open>ex_store\<close> at time 51000 when the signed-in user has by then changed to \<open>bob\<close>.
\<close>

definition ex_self_match :: Match where
  "ex_self_match =
     \<lparr>player1 = \<lparr>p_userId = ''bob'', p_username = ''bob'', p_rating = Some 1000,
                  p_timestamp = Some 51000\<rparr>,
      player2 = \<lparr>p_userId = ''bob'', p_username = ''bob'', p_rating = Some 1500,
                  p_timestamp = Some 49000\<rparr>,
      status = ready, createdAt = Some 51000\<rparr>"

lemmas ex_defs =
  ex_alice_def ex_bob_def ex_entry_def ex_store_def ex_cached_def ex_service_def ex_runtime_def
  ex_old_match_def

lemmas js_defs = lastSeen_def js_or_def or_zero_def truthy_def present_def displayName_def

section \<open>Properties\<close>

text \<open>
  C10. Every call of \<open>cleanup\<close> stops the heartbeat timer, releases the subscriptions of
  the match listener and of the queue listener and nulls both fields, sets
  \<open>currentQueueId\<close> and \<open>currentUserId\<close> to null and \<open>isJoiningQueue\<close> and
  \<open>isCreatingMatch\<close> to false, and leaves \<open>isMatched\<close> (and \<open>joinedAt\<close>) as they were.
\<close>

theorem cleanup_effect:
  "cleanup (svc, rt) =
     (svc\<lparr>currentQueueId := None, currentUserId := None, matchListener := None,
          queueListener := None, heartbeatInterval := None,
          isJoiningQueue := False, isCreatingMatch := False\<rparr>,
      \<lparr>timers = timers rt - set_option (heartbeatInterval svc),
       subscriptions = subscriptions rt
          - (case matchListener svc of None \<Rightarrow> {} | Some hs \<Rightarrow> set hs)
          - (case queueListener svc of None \<Rightarrow> {} | Some hs \<Rightarrow> set hs)\<rparr>)"
  by (cases rt; cases svc)
     (auto simp: cleanup_def stopHeartbeat_def unsubscribe_def split: option.splits)

subsection \<open>The match-creation transaction\<close>

lemma runTransaction_commitD:
  assumes "runTransaction s currentUser cur opponent now mid = Inr s'"
  shows "\<exists>u oppData. currentUser = Some u \<and> map_of (queue s) (o_id opponent) = Some oppData \<and>
           s' = s\<lparr>matches := AList.update mid (matchData u oppData opponent now) (matches s),
                  queue := AList.delete cur (queue s)\<rparr>"
  using assms
  by (auto simp: runTransaction_def getDoc_def split: option.splits if_splits)

lemma runTransaction_abort:
  assumes "map_of (queue s) i = None \<or>
           (\<exists>d. map_of (queue s) i = Some d \<and>
                (q_status d \<noteq> ''searching'' \<or> 10000 < now - lastSeen d))"
    and "i = o_id opponent \<or> i = cur"
  shows "isl (runTransaction s currentUser cur opponent now mid)"
  using assms
  by (auto simp: runTransaction_def getDoc_def split: option.splits)

lemma createMatchFromQueue_store_kept:
  assumes "isl (runTransaction s currentUser cur opponent now mid)"
    and "currentQueueId (fst c) = Some cur"
  shows "\<exists>c'. createMatchFromQueue c s currentUser opponent now mid = Inr (c', s)"
  using assms
  by (cases c) (auto simp: createMatchFromQueue_def try_catch_def Let_def split: sum.splits)

lemma lastSeen_le_max:
  "lastSeen d \<le> max (or_zero (q_lastHeartbeat d)) (or_zero (q_timestamp d))"
  by (auto simp: js_defs split: option.splits)

text \<open>
  C2. When the candidate's or the initiator's queue document (\<open>i\<close> is either id) does
  not exist, or its status is not \<open>searching\<close>, or its age is above 10000 ms (the age
  the code computes from \<open>lastHeartbeat || timestamp || 0\<close>, or the age measured from the
  later of the two fields), the transaction fails, and \<open>createMatchFromQueue\<close> returns
  with the store as it was: no match document written, no queue entry deleted.
\<close>

theorem transaction_abort_no_side_effects:
  assumes "i = o_id opponent \<or> i = cur"
    and "currentQueueId (fst c) = Some cur"
    and "map_of (queue s) i = None \<or>
         (\<exists>d. map_of (queue s) i = Some d \<and>
              (q_status d \<noteq> ''searching'' \<or> 10000 < now - lastSeen d \<or>
               10000 < now - max (or_zero (q_lastHeartbeat d)) (or_zero (q_timestamp d))))"
  shows "isl (runTransaction s currentUser cur opponent now mid) \<and>
         (\<exists>c'. createMatchFromQueue c s currentUser opponent now mid = Inr (c', s))"
proof -
  have "map_of (queue s) i = None \<or>
        (\<exists>d. map_of (queue s) i = Some d \<and>
             (q_status d \<noteq> ''searching'' \<or> 10000 < now - lastSeen d))"
  proof (cases "map_of (queue s) i")
    case None
    then show ?thesis by simp
  next
    case (Some d)
    have "lastSeen d \<le> max (or_zero (q_lastHeartbeat d)) (or_zero (q_timestamp d))"
      by (rule lastSeen_le_max)
    with Some assms(3) show ?thesis by auto
  qed
  then have "isl (runTransaction s currentUser cur opponent now mid)"
    using assms(1) by (rule runTransaction_abort)
  then show ?thesis
    using assms(2) createMatchFromQueue_store_kept by blast
qed

theorem transaction_abort_no_side_effects_witness:
  "isl (runTransaction ex_store (Some ex_alice) ''qa'' ex_cached 60000 ''m1'') \<and>
   (\<exists>c'. createMatchFromQueue (ex_service, ex_runtime) ex_store (Some ex_alice) ex_cached
            60000 ''m1'' = Inr (c', ex_store))"
  using transaction_abort_no_side_effects
    [of "''qb''" ex_cached "''qa''" "(ex_service, ex_runtime)" ex_store 60000 "Some ex_alice" "''m1''"]
  by (simp add: ex_defs js_defs)

text \<open>
  C8. When the transaction fails, whether by a precondition of its body or by a refusal
  of the store, \<open>createMatchFromQueue\<close> returns normally (the failure is not passed on to
  the caller), with \<open>isMatched\<close> and \<open>isCreatingMatch\<close> false, every other field of the
  service, the runtime and the store as before.
\<close>

theorem transaction_failure_caught:
  assumes "runTransaction s currentUser cur opponent now mid = Inl e"
    and "\<not> isMatched svc" and "currentQueueId svc = Some cur" and "cur \<noteq> []"
  shows "createMatchFromQueue (svc, rt) s currentUser opponent now mid =
           Inr ((svc\<lparr>isMatched := False, isCreatingMatch := False\<rparr>, rt), s)"
  using assms by (simp add: createMatchFromQueue_def try_catch_def)

theorem transaction_failure_caught_witness:
  "runTransaction ex_store (Some ex_alice) ''qa'' ex_cached 60000 ''m1'' = Inl stale_entry \<and>
   runTransaction (ex_store\<lparr>rejects := (\<lambda>r. r = Commit)\<rparr>) (Some ex_alice) ''qa'' ex_cached
     51000 ''m1'' = Inl store_rejected \<and>
   createMatchFromQueue (ex_service, ex_runtime) ex_store (Some ex_alice) ex_cached 60000 ''m1'' =
     Inr ((ex_service\<lparr>isMatched := False, isCreatingMatch := False\<rparr>, ex_runtime), ex_store)"
  using transaction_failure_caught
    [of ex_store "Some ex_alice" "''qa''" ex_cached 60000 "''m1''" stale_entry ex_service ex_runtime]
  by (simp add: ex_defs js_defs runTransaction_def getDoc_def)

text \<open>
  C9, as the code has it. A committed transaction writes, under the new match id, the
  document \<open>matchData\<close>: \<open>player1\<close> is the initiator (uid, display name, rating 1000, the
  current time); \<open>player2\<close> has the user id, rating and timestamp of the caller's cached
  copy of the candidate, and the username of the snapshot read in the transaction when
  that is not empty (the cached username otherwise); the status is \<open>ready\<close> and
  \<open>createdAt\<close> the current time. In the same step the initiator's queue entry is deleted;
  every other queue entry, the candidate's when it is another document, stays as it
  was, and so does every other match document.
\<close>

theorem transaction_commit:
  assumes "runTransaction s currentUser cur opponent now mid = Inr s'"
  shows "\<exists>u oppData.
           currentUser = Some u \<and> map_of (queue s) (o_id opponent) = Some oppData \<and>
           map_of (matches s') mid =
             Some \<lparr>player1 = \<lparr>p_userId = uid u, p_username = displayName u,
                               p_rating = Some 1000, p_timestamp = Some now\<rparr>,
                   player2 = \<lparr>p_userId = o_userId opponent,
                               p_username = (if q_username oppData \<noteq> [] then q_username oppData
                                             else o_username opponent),
                               p_rating = Some (o_rating opponent),
                               p_timestamp = o_timestamp opponent\<rparr>,
                   status = ready, createdAt = Some now\<rparr> \<and>
           map_of (queue s') cur = None \<and>
           (\<forall>k. k \<noteq> cur \<longrightarrow> map_of (queue s') k = map_of (queue s) k) \<and>
           (\<forall>k. k \<noteq> mid \<longrightarrow> map_of (matches s') k = map_of (matches s) k)"
proof -
  from runTransaction_commitD [OF assms] obtain u oppData where u: "currentUser = Some u"
    and opp: "map_of (queue s) (o_id opponent) = Some oppData"
    and s': "s' = s\<lparr>matches := AList.update mid (matchData u oppData opponent now) (matches s),
                    queue := AList.delete cur (queue s)\<rparr>"
    by blast
  have "map_of (matches s') mid = Some (matchData u oppData opponent now)"
    by (simp add: s' update_conv')
  moreover have "map_of (queue s') cur = None"
    by (simp add: s' delete_conv')
  moreover have "\<forall>k. k \<noteq> cur \<longrightarrow> map_of (queue s') k = map_of (queue s) k"
    by (simp add: s')
  moreover have "\<forall>k. k \<noteq> mid \<longrightarrow> map_of (matches s') k = map_of (matches s) k"
    by (simp add: s' update_conv')
  ultimately show ?thesis
    using u opp by (auto simp: matchData_def)
qed

theorem transaction_commit_witness:
  "runTransaction ex_store (Some ex_alice) ''qa'' ex_cached 51000 ''m1'' =
     Inr (ex_store\<lparr>matches := [(''m1'', matchData ex_alice
                                    ((ex_entry ''bob'' 49000)\<lparr>q_rating := Some 1500\<rparr>)
                                    ex_cached 51000)],
                   queue := [(''qb'', (ex_entry ''bob'' 49000)\<lparr>q_rating := Some 1500\<rparr>)]\<rparr>) \<and>
   (\<exists>u oppData. Some ex_alice = Some u \<and> map_of (queue ex_store) (o_id ex_cached) = Some oppData)"
proof -
  have run: "runTransaction ex_store (Some ex_alice) ''qa'' ex_cached 51000 ''m1'' =
     Inr (ex_store\<lparr>matches := [(''m1'', matchData ex_alice
                                    ((ex_entry ''bob'' 49000)\<lparr>q_rating := Some 1500\<rparr>)
                                    ex_cached 51000)],
                   queue := [(''qb'', (ex_entry ''bob'' 49000)\<lparr>q_rating := Some 1500\<rparr>)]\<rparr>)"
    by (simp add: runTransaction_def getDoc_def ex_defs js_defs)
  from transaction_commit [OF run] have
    "\<exists>u oppData. Some ex_alice = Some u \<and> map_of (queue ex_store) (o_id ex_cached) = Some oppData"
    by blast
  with run show ?thesis by blast
qed

text \<open>
  C9 as the specification states it fails: the rating written for \<open>player2\<close> is the one
  of the caller's cached copy (1000 here), not the one of the document read inside the
  transaction (1500 here).
\<close>

theorem transaction_rating_counterexample:
  "runTransaction ex_store (Some ex_alice) ''qa'' ex_cached 51000 ''m1'' =
     Inr (ex_store\<lparr>matches := [(''m1'',
            \<lparr>player1 = \<lparr>p_userId = ''alice'', p_username = ''alice'', p_rating = Some 1000,
                         p_timestamp = Some 51000\<rparr>,
             player2 = \<lparr>p_userId = ''bob'', p_username = ''bob'', p_rating = Some 1000,
                         p_timestamp = Some 49000\<rparr>,
             status = ready, createdAt = Some 51000\<rparr>)],
          queue := [(''qb'', (ex_entry ''bob'' 49000)\<lparr>q_rating := Some 1500\<rparr>)]\<rparr>) \<and>
   map_option q_rating (map_of (queue ex_store) ''qb'') = Some (Some 1500) \<and>
   o_rating ex_cached = 1000"
  by (simp add: runTransaction_def getDoc_def matchData_def ex_defs js_defs)

subsection \<open>Discovery\<close>

text \<open>
  C4. When the candidate's document, read afresh from the store, is older than 30000 ms
  measured from the later of \<open>lastHeartbeat\<close> and \<open>timestamp\<close>, \<open>isValidOpponent\<close>
  returns false.
\<close>

theorem stale_opponent_rejected:
  assumes "map_of (queue s) (o_id opponent) = Some d"
    and "30000 < now - max (or_zero (q_lastHeartbeat d)) (or_zero (q_timestamp d))"
  shows "\<not> isValidOpponent svc s now opponent currentUserId'"
  using assms lastSeen_le_max [of d]
  by (auto simp: isValidOpponent_def getDoc_def)

theorem stale_opponent_rejected_witness:
  "map_of (queue ex_store) (o_id ex_cached) = Some ((ex_entry ''bob'' 49000)\<lparr>q_rating := Some 1500\<rparr>) \<and>
   \<not> isValidOpponent ex_service ex_store 90000 ex_cached ''alice'' \<and>
   isValidOpponent ex_service ex_store 51000 ex_cached ''alice''"
  using stale_opponent_rejected
    [of ex_store ex_cached "(ex_entry ''bob'' 49000)\<lparr>q_rating := Some 1500\<rparr>" 90000 ex_service "''alice''"]
  by (simp add: ex_defs js_defs isValidOpponent_def getDoc_def)

lemma createMatchFromQueue_new_match:
  assumes "createMatchFromQueue c s authUser opponent now mid = Inr (c', s')"
    and "map_of (matches s') k = Some m" and "map_of (matches s) k \<noteq> Some m"
  shows "\<exists>u. authUser = Some u \<and> p_userId (player1 m) = uid u \<and>
             p_userId (player2 m) = o_userId opponent"
proof -
  from assms have "s' \<noteq> s" by auto
  with assms(1) obtain cur where run: "runTransaction s authUser cur opponent now mid = Inr s'"
    by (cases c)
       (auto simp: createMatchFromQueue_def try_catch_def Let_def
             split: if_splits option.splits sum.splits)
  from runTransaction_commitD [OF run] obtain u oppData where
    u: "authUser = Some u" and
    s': "s' = s\<lparr>matches := AList.update mid (matchData u oppData opponent now) (matches s),
                    queue := AList.delete cur (queue s)\<rparr>"
    by blast
  from s' assms(2,3) have "k = mid"
    by (cases "k = mid") (auto simp: update_conv')
  with s' assms(2) have "m = matchData u oppData opponent now"
    by (simp add: update_conv')
  with u show ?thesis by (simp add: matchData_def)
qed

lemma tryCandidate_new_match:
  assumes "tryCandidate c s authUser userId now mid i data = (b, c', s')"
    and "map_of (matches s') k = Some m" and "map_of (matches s) k \<noteq> Some m"
  shows "\<exists>u. authUser = Some u \<and> p_userId (player1 m) = uid u \<and>
             p_userId (player2 m) \<noteq> userId"
proof -
  let ?svc1 = "(fst c)\<lparr>isCreatingMatch := True\<rparr>"
  let ?opp = "potentialOpponent i data"
  from assms have neq: "s' \<noteq> s" by auto
  with assms(1) have valid: "isValidOpponent ?svc1 s now ?opp userId"
    by (cases c) (auto simp: tryCandidate_def Let_def split: if_splits sum.splits)
  with assms(1) neq have "createMatchFromQueue (?svc1, snd c) s authUser ?opp now mid = Inr (c', s')"
    by (cases c) (auto simp: tryCandidate_def Let_def split: if_splits sum.splits)
  from createMatchFromQueue_new_match [OF this assms(2,3)] obtain u where
    "authUser = Some u" "p_userId (player1 m) = uid u" "p_userId (player2 m) = o_userId ?opp"
    by blast
  moreover from valid have "o_userId ?opp \<noteq> userId"
    by (auto simp: isValidOpponent_def split: if_splits)
  ultimately show ?thesis by simp
qed

lemma tryCandidate_False_store:
  "tryCandidate c s authUser userId now mid i data = (False, c', s') \<Longrightarrow> s' = s"
  by (cases c) (auto simp: tryCandidate_def Let_def split: if_splits sum.splits)

lemma scanLoop_new_match:
  assumes "scanLoop ds c s authUser userId now mid = (c', s')"
    and "map_of (matches s') k = Some m" and "map_of (matches s) k \<noteq> Some m"
  shows "\<exists>u. authUser = Some u \<and> p_userId (player1 m) = uid u \<and>
             p_userId (player2 m) \<noteq> userId"
  using assms
proof (induction ds c s authUser userId now mid rule: scanLoop.induct)
  case (1 c s authUser userId now mid)
  then show ?case by simp
next
  case (2 i data ds c s authUser userId now mid)
  show ?case
  proof (cases "isMatched (fst c) \<or> isCreatingMatch (fst c)")
    case True
    with "2.prems" show ?thesis by simp
  next
    case stop: False
    show ?thesis
    proof (cases "Some i = currentQueueId (fst c) \<or> q_userId data = userId")
      case True
      with stop "2.prems" "2.IH"(1,2) show ?thesis by (auto split: if_splits)
    next
      case False
      obtain b c1 s1 where t: "tryCandidate c s authUser userId now mid i data = (b, c1, s1)"
        by (cases "tryCandidate c s authUser userId now mid i data")
      show ?thesis
      proof (cases b)
        case True
        with t stop False "2.prems" have "c1 = c'" "s1 = s'" by auto
        with t "2.prems" tryCandidate_new_match show ?thesis by blast
      next
        case nb: False
        with t have "s1 = s" by (simp add: tryCandidate_False_store)
        with nb t stop False "2.prems" "2.IH"(3) show ?thesis by auto
      qed
    qed
  qed
qed

lemma listenerLoop_new_match:
  assumes "listenerLoop changes c s authUser userId now mid = (c', s')"
    and "map_of (matches s') k = Some m" and "map_of (matches s) k \<noteq> Some m"
  shows "\<exists>u. authUser = Some u \<and> p_userId (player1 m) = uid u \<and>
             p_userId (player2 m) \<noteq> userId"
  using assms
proof (induction changes c s authUser userId now mid rule: listenerLoop.induct)
  case (1 c s authUser userId now mid)
  then show ?case by simp
next
  case (2 ty i data changes c s authUser userId now mid)
  show ?case
  proof (cases "ty = added \<and> \<not> isCreatingMatch (fst c)")
    case False
    with "2.prems" "2.IH"(4) show ?thesis by (auto split: if_splits)
  next
    case go: True
    show ?thesis
    proof (cases "Some i = currentQueueId (fst c) \<or> q_userId data = userId")
      case True
      with go "2.prems" "2.IH"(1,2) show ?thesis by (auto split: if_splits)
    next
      case False
      obtain b c1 s1 where t: "tryCandidate c s authUser userId now mid i data = (b, c1, s1)"
        by (cases "tryCandidate c s authUser userId now mid i data")
      show ?thesis
      proof (cases b)
        case True
        with t go False "2.prems" have "c1 = c'" "s1 = s'" by auto
        with t "2.prems" tryCandidate_new_match show ?thesis by blast
      next
        case nb: False
        with t have "s1 = s" by (simp add: tryCandidate_False_store)
        with nb t go False "2.prems" "2.IH"(3) show ?thesis by auto
      qed
    qed
  qed
qed

text \<open>
  \<open>isValidOpponent\<close> accepts no candidate that has the user id \<open>userId\<close> or is the
  caller's own entry, whatever entries the queue holds. \<open>userId\<close> is the id that
  \<open>joinQueue\<close> passed to the scan and to the listener when the session joined, while
  \<open>player1\<close> is \<open>auth.currentUser\<close>, read when the match is created. As long as the two
  are the same principal, every match document that the immediate scan or the queue
  listener writes has \<open>player1.userId\<close> different from \<open>player2.userId\<close>.
\<close>

lemma no_self_match_same_principal:
  assumes "\<forall>u. authUser = Some u \<longrightarrow> uid u = userId"
    and "scanQueueForOpponents c s authUser userId now mid = (c', s') \<or>
         onQueueSnapshot changes c s authUser userId now mid = (c', s')"
    and "map_of (matches s') k = Some m" and "map_of (matches s) k \<noteq> Some m"
  shows "p_userId (player1 m) \<noteq> p_userId (player2 m) \<and>
         (isValidOpponent svc s now opponent userId \<longrightarrow>
            o_userId opponent \<noteq> userId \<and> Some (o_id opponent) \<noteq> currentQueueId svc)"
proof -
  from assms(3,4) have neq: "s' \<noteq> s" by auto
  have "\<exists>u. authUser = Some u \<and> p_userId (player1 m) = uid u \<and> p_userId (player2 m) \<noteq> userId"
    using assms(2)
  proof
    assume "scanQueueForOpponents c s authUser userId now mid = (c', s')"
    with neq have
      "scanLoop (filter (\<lambda>(i, d). q_status d = ''searching'') (queue s)) c s authUser userId now mid
         = (c', s')"
      by (auto simp: scanQueueForOpponents_def split: if_splits)
    then show ?thesis using assms(3,4) by (rule scanLoop_new_match)
  next
    assume "onQueueSnapshot changes c s authUser userId now mid = (c', s')"
    with neq have "listenerLoop changes c s authUser userId now mid = (c', s')"
      by (auto simp: onQueueSnapshot_def split: if_splits)
    then show ?thesis using assms(3,4) by (rule listenerLoop_new_match)
  qed
  with assms(1) have "p_userId (player1 m) \<noteq> p_userId (player2 m)" by auto
  moreover have "isValidOpponent svc s now opponent userId \<longrightarrow>
            o_userId opponent \<noteq> userId \<and> Some (o_id opponent) \<noteq> currentQueueId svc"
    by (auto simp: isValidOpponent_def split: if_splits)
  ultimately show ?thesis by simp
qed

lemma no_self_match_same_principal_example:
  "scanQueueForOpponents (ex_service, ex_runtime)
      (ex_store\<lparr>queue := (''qa0'', ex_entry ''alice'' 49500) # queue ex_store\<rparr>)
      (Some ex_alice) ''alice'' 51000 ''m1'' =
     (cleanup (ex_service\<lparr>isCreatingMatch := True, isMatched := True\<rparr>, ex_runtime),
      ex_store\<lparr>queue := [(''qa0'', ex_entry ''alice'' 49500),
                          (''qb'', (ex_entry ''bob'' 49000)\<lparr>q_rating := Some 1500\<rparr>)],
               matches := [(''m1'', matchData ex_alice
                                     ((ex_entry ''bob'' 49000)\<lparr>q_rating := Some 1500\<rparr>)
                                     (potentialOpponent ''qb''
                                        ((ex_entry ''bob'' 49000)\<lparr>q_rating := Some 1500\<rparr>))
                                     51000)]\<rparr>) \<and>
   p_userId (player1 (matchData ex_alice ((ex_entry ''bob'' 49000)\<lparr>q_rating := Some 1500\<rparr>)
                        (potentialOpponent ''qb''
                           ((ex_entry ''bob'' 49000)\<lparr>q_rating := Some 1500\<rparr>)) 51000)) \<noteq>
   p_userId (player2 (matchData ex_alice ((ex_entry ''bob'' 49000)\<lparr>q_rating := Some 1500\<rparr>)
                        (potentialOpponent ''qb''
                           ((ex_entry ''bob'' 49000)\<lparr>q_rating := Some 1500\<rparr>)) 51000))"
proof -
  let ?s = "ex_store\<lparr>queue := (''qa0'', ex_entry ''alice'' 49500) # queue ex_store\<rparr>"
  let ?m = "matchData ex_alice ((ex_entry ''bob'' 49000)\<lparr>q_rating := Some 1500\<rparr>)
              (potentialOpponent ''qb'' ((ex_entry ''bob'' 49000)\<lparr>q_rating := Some 1500\<rparr>)) 51000"
  let ?s' = "ex_store\<lparr>queue := [(''qa0'', ex_entry ''alice'' 49500),
                          (''qb'', (ex_entry ''bob'' 49000)\<lparr>q_rating := Some 1500\<rparr>)],
               matches := [(''m1'', ?m)]\<rparr>"
  let ?c' = "cleanup (ex_service\<lparr>isCreatingMatch := True, isMatched := True\<rparr>, ex_runtime)"
  have run: "scanQueueForOpponents (ex_service, ex_runtime) ?s (Some ex_alice) ''alice'' 51000 ''m1''
               = (?c', ?s')"
    by (simp add: scanQueueForOpponents_def tryCandidate_def isValidOpponent_def
        createMatchFromQueue_def try_catch_def runTransaction_def getDoc_def potentialOpponent_def
        ex_defs js_defs)
  have a: "\<forall>u. Some ex_alice = Some u \<longrightarrow> uid u = ''alice''"
    by (simp add: ex_defs)
  have m: "map_of (matches ?s') ''m1'' = Some ?m" by simp
  have n: "map_of (matches ?s) ''m1'' \<noteq> Some ?m" by (simp add: ex_defs)
  from no_self_match_same_principal [OF a disjI1 [OF run] m n]
  have "p_userId (player1 ?m) \<noteq> p_userId (player2 ?m)" by blast
  with run show ?thesis by blast
qed

text \<open>
  C3. No match document that the service creates pairs a principal with itself:
  \<open>player1.userId\<close> differs from \<open>player2.userId\<close>. The code does not keep this when the
  signed-in user changes while a session is searching. The session that joined as
  \<open>alice\<close> still compares candidates with \<open>alice\<close>, so it accepts the fresh entry of
  \<open>bob\<close>; \<open>createMatchFromQueue\<close> is then given \<open>auth.currentUser\<close>, by now \<open>bob\<close>, and
  the immediate scan and the queue listener both write a match document whose two
  players are \<open>bob\<close>, deleting the entry of \<open>alice\<close>.
\<close>

theorem self_match_after_user_change:
  "scanQueueForOpponents (ex_service, ex_runtime) ex_store (Some ex_bob) ''alice'' 51000 ''m1'' =
     (cleanup (ex_service\<lparr>isCreatingMatch := True, isMatched := True\<rparr>, ex_runtime),
      ex_store\<lparr>queue := [(''qb'', (ex_entry ''bob'' 49000)\<lparr>q_rating := Some 1500\<rparr>)],
               matches := [(''m1'', ex_self_match)]\<rparr>) \<and>
   onQueueSnapshot [(added, ''qb'', (ex_entry ''bob'' 49000)\<lparr>q_rating := Some 1500\<rparr>)]
       (ex_service, ex_runtime) ex_store (Some ex_bob) ''alice'' 51000 ''m1'' =
     (cleanup (ex_service\<lparr>isCreatingMatch := True, isMatched := True\<rparr>, ex_runtime),
      ex_store\<lparr>queue := [(''qb'', (ex_entry ''bob'' 49000)\<lparr>q_rating := Some 1500\<rparr>)],
               matches := [(''m1'', ex_self_match)]\<rparr>) \<and>
   currentUserId ex_service = Some ''alice'' \<and>
   p_userId (player1 ex_self_match) = ''bob'' \<and> p_userId (player2 ex_self_match) = ''bob''"
  by (simp add: scanQueueForOpponents_def onQueueSnapshot_def tryCandidate_def isValidOpponent_def
      createMatchFromQueue_def try_catch_def runTransaction_def getDoc_def potentialOpponent_def
      matchData_def ex_self_match_def ex_defs js_defs)

theorem self_match_after_user_change_witness:
  "map_of (matches (snd (scanQueueForOpponents (ex_service, ex_runtime) ex_store (Some ex_bob)
                           ''alice'' 51000 ''m1''))) ''m1'' = Some ex_self_match \<and>
   p_userId (player1 ex_self_match) = p_userId (player2 ex_self_match)"
  using self_match_after_user_change by simp

subsection \<open>Match notification\<close>

lemma handleMatch_old:
  "or_zero (createdAt m) \<le> j \<Longrightarrow> handleMatch j (i, m) st = (st, [])"
  by (simp add: handleMatch_def split: prod.splits)

lemma handleMatch_calls:
  "x \<in> set (snd (handleMatch j m st)) \<Longrightarrow> x = m \<and> j < or_zero (createdAt (snd m))"
  by (auto simp: handleMatch_def split: prod.splits if_splits)

lemma onMatchSnapshot_calls:
  "x \<in> set (snd (onMatchSnapshot j changes st)) \<Longrightarrow> j < or_zero (createdAt (snd x))"
proof (induction changes arbitrary: st)
  case Nil
  then show ?case by simp
next
  case (Cons c changes)
  obtain ty i m where c: "c = (ty, i, m)" by (cases c)
  show ?case
  proof (cases "ty = added \<and> \<not> snd st")
    case True
    obtain st1 calls1 where h: "handleMatch j (i, m) st = (st1, calls1)"
      by (cases "handleMatch j (i, m) st")
    with Cons.prems True c have "x \<in> set calls1 \<or> x \<in> set (snd (onMatchSnapshot j changes st1))"
      by (auto split: prod.splits)
    then show ?thesis
    proof
      assume "x \<in> set calls1"
      with h handleMatch_calls [of x j "(i, m)" st] show ?thesis by simp
    next
      assume "x \<in> set (snd (onMatchSnapshot j changes st1))"
      then show ?thesis by (rule Cons.IH)
    qed
  next
    case False
    with Cons.prems c have "x \<in> set (snd (onMatchSnapshot j changes st))" by auto
    then show ?thesis by (rule Cons.IH)
  qed
qed

text \<open>
  C5. Let \<open>t\<close> be the \<open>joinedAt\<close> recorded by \<open>joinQueue\<close>, which the listeners capture
  as \<open>j\<close>. A match whose \<open>createdAt\<close> (0 when missing) is at most \<open>t\<close> leaves the state
  as it is and invokes no callback when \<open>handleMatch\<close> receives it, and it is not among
  the payloads passed to \<open>onMatchFound\<close> by any snapshot of either listener.
\<close>

theorem old_match_ignored:
  assumes "joinedAt (fst c0) = Some t"
    and "setupMatchListeners c0 now0 h1 h2 = (c1, j)"
    and "or_zero (createdAt m) \<le> t"
  shows "j = t \<and> handleMatch j (i, m) st = (st, []) \<and>
         (i, m) \<notin> set (snd (onMatchSnapshot j changes st))"
proof -
  from assms(1,2) have j: "j = t"
    by (auto simp: setupMatchListeners_def split: prod.splits)
  have "handleMatch j (i, m) st = (st, [])"
    using assms(3) j by (simp add: handleMatch_old)
  moreover have "(i, m) \<notin> set (snd (onMatchSnapshot j changes st))"
    using onMatchSnapshot_calls [of "(i, m)" j changes st] assms(3) j by auto
  ultimately show ?thesis using j by simp
qed

theorem old_match_ignored_witness:
  "setupMatchListeners (ex_service, ex_runtime) 48500 1 2 =
     ((ex_service\<lparr>matchListener := Some [1, 2]\<rparr>,
       ex_runtime\<lparr>subscriptions := subscriptions ex_runtime \<union> {1, 2}\<rparr>), 48000) \<and>
   or_zero (createdAt ex_old_match) \<le> 48000 \<and>
   handleMatch 48000 (''m0'', ex_old_match) ((ex_service, ex_runtime), False) =
     (((ex_service, ex_runtime), False), []) \<and>
   (''m0'', ex_old_match) \<notin> set (snd (onMatchSnapshot 48000
       [(added, ''m0'', ex_old_match), (added, ''m2'', ex_old_match\<lparr>createdAt := Some 49000\<rparr>)]
       ((ex_service, ex_runtime), False)))"
proof -
  have a: "joinedAt (fst (ex_service, ex_runtime)) = Some 48000"
    by (simp add: ex_defs)
  have b: "setupMatchListeners (ex_service, ex_runtime) 48500 1 2 =
     ((ex_service\<lparr>matchListener := Some [1, 2]\<rparr>,
       ex_runtime\<lparr>subscriptions := subscriptions ex_runtime \<union> {1, 2}\<rparr>), 48000)"
    by (simp add: setupMatchListeners_def ex_defs)
  have c: "or_zero (createdAt ex_old_match) \<le> 48000"
    by (simp add: ex_defs js_defs)
  from old_match_ignored [OF a b c] b c show ?thesis by blast
qed

subsection \<open>The queue entry of a principal\<close>

lemma newest_spec:
  "newest ds (a, t) = (r, t') \<Longrightarrow>
     t \<le> t' \<and> (\<forall>(i, d) \<in> set ds. or_zero (q_timestamp d) \<le> t') \<and>
     (if t' = t then r = a
      else \<exists>k d. r = Some k \<and> (k, d) \<in> set ds \<and> or_zero (q_timestamp d) = t')"
proof (induction ds arbitrary: a t)
  case Nil
  then show ?case by simp
next
  case (Cons x ds)
  obtain i data where x: "x = (i, data)" by (cases x)
  show ?case
  proof (cases "or_zero (q_timestamp data) > t")
    case True
    with Cons.prems x have "newest ds (Some i, or_zero (q_timestamp data)) = (r, t')"
      by simp
    from Cons.IH [OF this] True x show ?thesis
      by (auto split: if_splits)
  next
    case False
    with Cons.prems x have "newest ds (a, t) = (r, t')" by simp
    from Cons.IH [OF this] False x show ?thesis
      by (auto split: if_splits)
  qed
qed




lemma deleteOthers_keep_step:
  "Some i = keep \<Longrightarrow> deleteOthers ((i, data) # ds) keep s = deleteOthers ds keep s"
  by simp

lemma deleteOthers_delete_step:
  "Some i \<noteq> keep \<Longrightarrow> \<not> rejects s (DeleteQueue i) \<Longrightarrow>
   deleteOthers ((i, data) # ds) keep s =
     deleteOthers ds keep (s\<lparr>queue := AList.delete i (queue s)\<rparr>)"
  by (simp add: deleteDoc_def)

lemma filter_keep_Cons:
  fixes keep :: "doc_id option"
  assumes "Some i = keep"
  shows "filter (\<lambda>(j, d :: queue_entry). j \<in> fst ` set ds \<longrightarrow> Some j = keep) xs =
         filter (\<lambda>(j, d). j \<in> fst ` set ((i, data) # ds) \<longrightarrow> Some j = keep) xs"
proof (rule filter_cong [OF refl])
  fix y assume "y \<in> set xs"
  show "(case y of (j, d) \<Rightarrow> j \<in> fst ` set ds \<longrightarrow> Some j = keep) =
        (case y of (j, d) \<Rightarrow> j \<in> fst ` set ((i, data) # ds) \<longrightarrow> Some j = keep)"
    using assms by (cases y) auto
qed

lemma filter_delete_Cons:
  fixes keep :: "doc_id option"
  assumes "Some i \<noteq> keep"
  shows "filter (\<lambda>(j, d :: queue_entry). j \<in> fst ` set ds \<longrightarrow> Some j = keep) (AList.delete i xs) =
         filter (\<lambda>(j, d). j \<in> fst ` set ((i, data) # ds) \<longrightarrow> Some j = keep) xs"
proof -
  let ?Q = "\<lambda>ds (j, d :: queue_entry). j \<in> fst ` set ds \<longrightarrow> Some j = keep"
  have "filter (?Q ds) (AList.delete i xs) =
        filter (\<lambda>y. (case y of (k, _) \<Rightarrow> i \<noteq> k) \<and> ?Q ds y) xs"
    unfolding AList.delete_eq filter_filter ..
  also have "\<dots> = filter (?Q ((i, data) # ds)) xs"
  proof (rule filter_cong [OF refl])
    fix y assume "y \<in> set xs"
    show "((case y of (k, _) \<Rightarrow> i \<noteq> k) \<and> ?Q ds y) = ?Q ((i, data) # ds) y"
      using assms by (cases y) auto
  qed
  finally show ?thesis .
qed

lemma deleteOthers_filter:
  "\<forall>i \<in> fst ` set ds. \<not> rejects s (DeleteQueue i) \<Longrightarrow>
   deleteOthers ds keep s =
     s\<lparr>queue := filter (\<lambda>(i, d). i \<in> fst ` set ds \<longrightarrow> Some i = keep) (queue s)\<rparr>"
proof (induction ds arbitrary: s)
  case Nil
  then show ?case by simp
next
  case (Cons x ds)
  obtain i data where x: "x = (i, data)" by (cases x)
  have acc: "\<not> rejects s (DeleteQueue i)"
    and rest: "\<forall>i \<in> fst ` set ds. \<not> rejects s (DeleteQueue i)"
    using Cons.prems x by auto
  show ?case
  proof (cases "Some i = keep")
    case True
    have "deleteOthers (x # ds) keep s = deleteOthers ds keep s"
      unfolding x using True by (rule deleteOthers_keep_step)
    also have "\<dots> = s\<lparr>queue := filter (\<lambda>(i, d). i \<in> fst ` set ds \<longrightarrow> Some i = keep) (queue s)\<rparr>"
      using rest by (rule Cons.IH)
    also have "\<dots> = s\<lparr>queue := filter (\<lambda>(j, d). j \<in> fst ` set (x # ds) \<longrightarrow> Some j = keep) (queue s)\<rparr>"
      unfolding x using filter_keep_Cons [OF True, of ds "queue s" data] by (rule arg_cong)
    finally show ?thesis .
  next
    case False
    let ?s' = "s\<lparr>queue := AList.delete i (queue s)\<rparr>"
    have rest': "\<forall>i \<in> fst ` set ds. \<not> rejects ?s' (DeleteQueue i)"
      using rest by simp
    have "deleteOthers (x # ds) keep s = deleteOthers ds keep ?s'"
      unfolding x using False acc by (rule deleteOthers_delete_step)
    also have "\<dots> = ?s'\<lparr>queue := filter (\<lambda>(i, d). i \<in> fst ` set ds \<longrightarrow> Some i = keep) (queue ?s')\<rparr>"
      using rest' by (rule Cons.IH)
    also have "\<dots> = s\<lparr>queue := filter (\<lambda>(i, d). i \<in> fst ` set ds \<longrightarrow> Some i = keep) (AList.delete i (queue s))\<rparr>"
      by simp
    also have "\<dots> = s\<lparr>queue := filter (\<lambda>(j, d). j \<in> fst ` set (x # ds) \<longrightarrow> Some j = keep) (queue s)\<rparr>"
      unfolding x using filter_delete_Cons [OF False, of ds "queue s" data] by (rule arg_cong)
    finally show ?thesis .
  qed
qed



lemma filter_key_distinct:
  "distinct (map fst xs) \<Longrightarrow> (k, v) \<in> set xs \<Longrightarrow> filter (\<lambda>(i, d). i = k) xs = [(k, v)]"
proof (induction xs)
  case Nil
  then show ?case by simp
next
  case (Cons x xs)
  show ?case
  proof (cases "fst x = k")
    case True
    with Cons.prems have "x = (k, v)" and "k \<notin> fst ` set xs"
      by (auto simp: image_iff rev_image_eqI)
    then have "filter (\<lambda>(i, d). i = k) xs = []"
      by (auto simp: filter_empty_conv image_iff)
    with \<open>x = (k, v)\<close> show ?thesis by simp
  next
    case False
    with Cons show ?thesis by (auto split: prod.splits)
  qed
qed

lemma update_fresh_append:
  "k \<notin> fst ` set xs \<Longrightarrow> AList.update k v xs = xs @ [(k, v)]"
  by (induction xs) (auto split: prod.splits)

lemma upsert_create:
  assumes "\<not> rejects s ListQueue" and "\<not> rejects s AddQueue"
    and "searchingEntriesOf (uid u) s = []"
  shows "upsertQueueEntry s u now newId =
           Inr (Some newId, s\<lparr>queue := AList.update newId (newEntry u now) (queue s)\<rparr>)"
  using assms by (simp add: upsertQueueEntry_def addDoc_def)

lemma newest_found:
  assumes "ds \<noteq> []" and "\<forall>(i, d) \<in> set ds. 0 < or_zero (q_timestamp d)"
  shows "\<exists>k dk. fst (newest ds (None, 0)) = Some k \<and> (k, dk) \<in> set ds \<and>
                (\<forall>(i, d) \<in> set ds. or_zero (q_timestamp d) \<le> or_zero (q_timestamp dk))"
proof -
  obtain r t' where n: "newest ds (None, 0) = (r, t')"
    by (cases "newest ds (None, 0)")
  from newest_spec [OF n] have
    bound: "\<forall>(i, d) \<in> set ds. or_zero (q_timestamp d) \<le> t'" and
    res: "if t' = 0 then r = None
          else \<exists>k d. r = Some k \<and> (k, d) \<in> set ds \<and> or_zero (q_timestamp d) = t'"
    by auto
  from assms(1) obtain i d where "(i, d) \<in> set ds"
    by (cases ds) auto
  with assms(2) bound have "0 < t'" by fastforce
  with res obtain k dk where "r = Some k" "(k, dk) \<in> set ds" "or_zero (q_timestamp dk) = t'"
    by auto
  with bound n show ?thesis by auto
qed

lemma upsert_refresh:
  assumes acc: "\<forall>r. \<not> rejects s r"
    and wf: "wf_store s"
    and docs: "searchingEntriesOf (uid u) s \<noteq> []"
    and pos: "\<forall>(i, d) \<in> set (searchingEntriesOf (uid u) s). 0 < or_zero (q_timestamp d)"
  shows "\<exists>k dk. (k, dk) \<in> set (searchingEntriesOf (uid u) s) \<and>
           (\<forall>(i, d) \<in> set (searchingEntriesOf (uid u) s).
               or_zero (q_timestamp d) \<le> or_zero (q_timestamp dk)) \<and>
           upsertQueueEntry s u now newId =
             Inr (Some k,
                  s\<lparr>queue := filter (\<lambda>(i, d). i \<in> fst ` set (searchingEntriesOf (uid u) s)
                                          \<longrightarrow> Some i = Some k)
                                (AList.update k (refresh u now dk) (queue s))\<rparr>)"
proof -
  let ?docs = "searchingEntriesOf (uid u) s"
  from newest_found [OF docs pos] obtain k dk where
    k: "fst (newest ?docs (None, 0)) = Some k" and in_docs: "(k, dk) \<in> set ?docs" and
    mx: "\<forall>(i, d) \<in> set ?docs. or_zero (q_timestamp d) \<le> or_zero (q_timestamp dk)"
    by blast
  from in_docs have in_q: "(k, dk) \<in> set (queue s)"
    by (simp add: searchingEntriesOf_def)
  with wf have look: "map_of (queue s) k = Some dk" and ne: "k \<noteq> []"
    by (auto simp: wf_store_def image_iff)
  let ?s1 = "s\<lparr>queue := AList.update k (refresh u now dk) (queue s)\<rparr>"
  have upd: "updateDoc s k (refresh u now) = Inr ?s1"
    using acc look by (simp add: updateDoc_def)
  have del: "deleteOthers ?docs (Some k) ?s1 =
               ?s1\<lparr>queue := filter (\<lambda>(i, d). i \<in> fst ` set ?docs \<longrightarrow> Some i = Some k) (queue ?s1)\<rparr>"
    by (rule deleteOthers_filter) (use acc in simp)
  have "upsertQueueEntry s u now newId = Inr (Some k, deleteOthers ?docs (Some k) ?s1)"
    using acc docs k ne upd by (simp add: upsertQueueEntry_def Let_def)
  also have "deleteOthers ?docs (Some k) ?s1 =
      s\<lparr>queue := filter (\<lambda>(i, d). i \<in> fst ` set ?docs \<longrightarrow> Some i = Some k)
                        (AList.update k (refresh u now dk) (queue s))\<rparr>"
    unfolding del by simp
  finally show ?thesis using in_docs mx by blast
qed

lemma in_update_iff:
  assumes "distinct (map fst xs)"
  shows "(i, d) \<in> set (AList.update k v xs) \<longleftrightarrow> (if i = k then d = v else (i, d) \<in> set xs)"
proof -
  have "distinct (map fst (AList.update k v xs))"
    using assms by (rule distinct_update)
  then have "(i, d) \<in> set (AList.update k v xs) \<longleftrightarrow> map_of (AList.update k v xs) i = Some d"
    by simp
  also have "\<dots> \<longleftrightarrow> (if i = k then d = v else map_of xs i = Some d)"
    by (auto simp: update_conv')
  also have "\<dots> \<longleftrightarrow> (if i = k then d = v else (i, d) \<in> set xs)"
    using assms by simp
  finally show ?thesis .
qed

lemma refreshed_searching:
  assumes wf: "wf_store s" and in_docs: "(k, dk) \<in> set (searchingEntriesOf u' s)"
    and v: "q_userId v = u'" "q_status v = ''searching''"
  shows "searchingEntriesOf u'
           (s\<lparr>queue := filter (\<lambda>(i, d). i \<in> fst ` set (searchingEntriesOf u' s) \<longrightarrow> Some i = Some k)
                          (AList.update k v (queue s))\<rparr>) = [(k, v)]"
proof -
  let ?upd = "AList.update k v (queue s)"
  let ?Q = "\<lambda>(i, d :: queue_entry). i \<in> fst ` set (searchingEntriesOf u' s) \<longrightarrow> Some i = Some k"
  let ?P = "\<lambda>(i, d). q_userId d = u' \<and> q_status d = ''searching''"
  from wf have dist: "distinct (map fst (queue s))" by (simp add: wf_store_def)
  have "filter ?P (filter ?Q ?upd) = filter (\<lambda>y. ?Q y \<and> ?P y) ?upd"
    by (simp only: filter_filter)
  also have "\<dots> = filter (\<lambda>(i, d). i = k) ?upd"
  proof (rule filter_cong [OF refl])
    fix y assume y: "y \<in> set ?upd"
    obtain i d where yd: "y = (i, d)" by (cases y)
    show "(?Q y \<and> ?P y) = (case y of (i, d) \<Rightarrow> i = k)"
    proof (cases "i = k")
      case True
      with y yd dist have "d = v" by (simp add: in_update_iff)
      with True yd v show ?thesis by simp
    next
      case False
      with y yd dist have "(i, d) \<in> set (queue s)" by (simp add: in_update_iff)
      then have "?P (i, d) \<Longrightarrow> i \<in> fst ` set (searchingEntriesOf u' s)"
        by (force simp: searchingEntriesOf_def)
      with False yd show ?thesis by auto
    qed
  qed
  also have "\<dots> = [(k, v)]"
  proof (rule filter_key_distinct)
    show "distinct (map fst ?upd)" using dist by (rule distinct_update)
    show "(k, v) \<in> set ?upd" using dist by (simp add: in_update_iff)
  qed
  finally show ?thesis by (simp add: searchingEntriesOf_def)
qed

lemma refreshed_wf:
  assumes wf: "wf_store s" and in_q: "(k, dk) \<in> set (queue s)"
  shows "wf_store (s\<lparr>queue := filter Q (AList.update k v (queue s))\<rparr>)"
proof -
  from wf have dist: "distinct (map fst (queue s))" and ne: "[] \<notin> fst ` set (queue s)"
    by (simp_all add: wf_store_def)
  have "distinct (map fst (filter Q (AList.update k v (queue s))))"
    using dist by (intro distinct_map_filter distinct_update)
  moreover have "k \<in> fst ` set (queue s)"
    using in_q by force
  then have "fst ` set (AList.update k v (queue s)) = fst ` set (queue s)"
    by (auto simp: dom_update)
  then have "[] \<notin> fst ` set (filter Q (AList.update k v (queue s)))"
    using ne by auto
  ultimately show ?thesis by (simp add: wf_store_def)
qed

lemma refreshed_others:
  assumes wf: "wf_store s" and in_docs: "(k, dk) \<in> set (searchingEntriesOf u' s)"
    and e: "map_of (queue s) i = Some e"
    and foreign: "q_userId e \<noteq> u' \<or> q_status e \<noteq> ''searching''"
  shows "map_of (filter (\<lambda>(i, d). i \<in> fst ` set (searchingEntriesOf u' s) \<longrightarrow> Some i = Some k)
                   (AList.update k v (queue s))) i = Some e"
proof -
  let ?Q = "\<lambda>(i, d :: queue_entry). i \<in> fst ` set (searchingEntriesOf u' s) \<longrightarrow> Some i = Some k"
  from wf have dist: "distinct (map fst (queue s))" by (simp add: wf_store_def)
  from e dist have in_q: "(i, e) \<in> set (queue s)" by simp
  have notin: "i \<notin> fst ` set (searchingEntriesOf u' s)"
  proof
    assume "i \<in> fst ` set (searchingEntriesOf u' s)"
    then obtain d where d: "(i, d) \<in> set (searchingEntriesOf u' s)" by auto
    then have "(i, d) \<in> set (queue s)" and p: "q_userId d = u' \<and> q_status d = ''searching''"
      by (auto simp: searchingEntriesOf_def)
    with dist e have "d = e" by simp
    with p foreign show False by simp
  qed
  with in_docs have "i \<noteq> k" by (auto simp: image_iff)
  with in_q dist have "(i, e) \<in> set (AList.update k v (queue s))"
    by (simp add: in_update_iff)
  with notin have "(i, e) \<in> set (filter ?Q (AList.update k v (queue s)))" by simp
  moreover have "distinct (map fst (filter ?Q (AList.update k v (queue s))))"
    using dist by (intro distinct_map_filter distinct_update)
  ultimately show ?thesis by simp
qed

lemma newEntry_fields:
  "q_userId (newEntry u now) = uid u" "q_status (newEntry u now) = ''searching''"
  "q_timestamp (newEntry u now) = Some now" "q_lastHeartbeat (newEntry u now) = Some now"
  "q_sessionId (newEntry u now) = sessionId u now"
  by (simp_all add: newEntry_def)

lemma refresh_fields:
  "q_userId (refresh u now d) = q_userId d" "q_status (refresh u now d) = ''searching''"
  "q_timestamp (refresh u now d) = Some now" "q_lastHeartbeat (refresh u now d) = Some now"
  "q_sessionId (refresh u now d) = sessionId u now"
  "q_username (refresh u now d) = q_username d" "q_rating (refresh u now d) = q_rating d"
  by (simp_all add: refresh_def)

lemma upsert_once:
  assumes acc: "\<forall>r. \<not> rejects s r" and wf: "wf_store s"
    and fresh: "newId \<notin> fst ` set (queue s)" "newId \<noteq> []"
    and pos: "\<forall>(i, d) \<in> set (searchingEntriesOf (uid u) s). 0 < or_zero (q_timestamp d)"
  shows "\<exists>k v s'. upsertQueueEntry s u now newId = Inr (Some k, s') \<and>
           searchingEntriesOf (uid u) s' = [(k, v)] \<and>
           q_userId v = uid u \<and> q_status v = ''searching'' \<and> q_timestamp v = Some now \<and>
           q_lastHeartbeat v = Some now \<and> q_sessionId v = sessionId u now \<and>
           (searchingEntriesOf (uid u) s = [] \<longrightarrow>
              k = newId \<and> v = newEntry u now \<and> queue s' = queue s @ [(newId, v)]) \<and>
           (searchingEntriesOf (uid u) s \<noteq> [] \<longrightarrow>
              (\<exists>dk. (k, dk) \<in> set (searchingEntriesOf (uid u) s) \<and> v = refresh u now dk \<and>
                 (\<forall>(i, d) \<in> set (searchingEntriesOf (uid u) s).
                     or_zero (q_timestamp d) \<le> or_zero (q_timestamp dk)))) \<and>
           (\<forall>i e. map_of (queue s) i = Some e \<and>
                  (q_userId e \<noteq> uid u \<or> q_status e \<noteq> ''searching'') \<longrightarrow>
                  map_of (queue s') i = Some e) \<and>
           wf_store s' \<and> rejects s' = rejects s \<and> matches s' = matches s"
proof (cases "searchingEntriesOf (uid u) s = []")
  case True
  let ?v = "newEntry u now"
  let ?s' = "s\<lparr>queue := AList.update newId ?v (queue s)\<rparr>"
  have run: "upsertQueueEntry s u now newId = Inr (Some newId, ?s')"
    using acc True by (simp add: upsert_create)
  have q': "queue ?s' = queue s @ [(newId, ?v)]"
    using fresh(1) by (simp add: update_fresh_append)
  have one: "searchingEntriesOf (uid u) ?s' = [(newId, ?v)]"
    using True unfolding searchingEntriesOf_def q' by (simp add: newEntry_fields)
  have others: "\<forall>i e. map_of (queue s) i = Some e \<and>
                  (q_userId e \<noteq> uid u \<or> q_status e \<noteq> ''searching'') \<longrightarrow>
                  map_of (queue ?s') i = Some e"
    unfolding q' by (auto simp: map_add_Some_iff)
  have wf': "wf_store ?s'"
    using wf fresh unfolding wf_store_def q' by auto
  show ?thesis
    using run one q' others wf' True newEntry_fields [of u now]
    by (intro exI [of _ newId] exI [of _ ?v] exI [of _ ?s']) simp
next
  case False
  from upsert_refresh [OF acc wf False pos, of now newId] obtain k dk where
    in_docs: "(k, dk) \<in> set (searchingEntriesOf (uid u) s)" and
    mx: "\<forall>(i, d) \<in> set (searchingEntriesOf (uid u) s).
            or_zero (q_timestamp d) \<le> or_zero (q_timestamp dk)" and
    run: "upsertQueueEntry s u now newId =
             Inr (Some k,
                  s\<lparr>queue := filter (\<lambda>(i, d). i \<in> fst ` set (searchingEntriesOf (uid u) s)
                                          \<longrightarrow> Some i = Some k)
                                (AList.update k (refresh u now dk) (queue s))\<rparr>)"
    by blast
  let ?v = "refresh u now dk"
  let ?q' = "filter (\<lambda>(i, d). i \<in> fst ` set (searchingEntriesOf (uid u) s) \<longrightarrow> Some i = Some k)
               (AList.update k ?v (queue s))"
  let ?s' = "s\<lparr>queue := ?q'\<rparr>"
  from in_docs have dk: "q_userId dk = uid u" and in_q: "(k, dk) \<in> set (queue s)"
    by (auto simp: searchingEntriesOf_def)
  have one: "searchingEntriesOf (uid u) ?s' = [(k, ?v)]"
    using wf in_docs by (rule refreshed_searching) (simp_all add: refresh_fields dk)
  have others: "\<forall>i e. map_of (queue s) i = Some e \<and>
                  (q_userId e \<noteq> uid u \<or> q_status e \<noteq> ''searching'') \<longrightarrow>
                  map_of (queue ?s') i = Some e"
    using refreshed_others [OF wf in_docs] by simp
  have wf': "wf_store ?s'"
    using wf in_q by (rule refreshed_wf)
  have ex: "\<exists>dk'. (k, dk') \<in> set (searchingEntriesOf (uid u) s) \<and> ?v = refresh u now dk' \<and>
                 (\<forall>(i, d) \<in> set (searchingEntriesOf (uid u) s).
                     or_zero (q_timestamp d) \<le> or_zero (q_timestamp dk'))"
    using in_docs mx by blast
  show ?thesis
    using run one others wf' False ex refresh_fields [of u now dk] dk
    by (intro exI [of _ k] exI [of _ ?v] exI [of _ ?s']) simp
qed

text \<open>
  C7. Let the store accept the requests, with unique non-empty document ids, let
  \<open>newId\<close> be a new id and \<open>now\<close> a positive clock reading, and let every \<open>searching\<close>
  entry of the principal carry a positive timestamp (as every entry this service writes
  does). Then \<open>upsertQueueEntry\<close> returns an id \<open>k\<close>, and afterwards the principal has
  exactly one \<open>searching\<close> entry, the one under \<open>k\<close>, with \<open>timestamp = lastHeartbeat = now\<close>
  and the new session id. If there was none before, it is a new document under \<open>newId\<close>,
  appended to the queue; otherwise \<open>k\<close> is an entry that was there with the greatest
  timestamp, refreshed in place, and all others are deleted. A second call finds that
  entry, refreshes it and returns the same \<open>k\<close>: again exactly one entry.
\<close>

theorem upsert_idempotent:
  assumes acc: "\<forall>r. \<not> rejects s r" and wf: "wf_store s"
    and fresh: "newId \<notin> fst ` set (queue s)" "newId \<noteq> []"
    and pos: "\<forall>(i, d) \<in> set (searchingEntriesOf (uid u) s). 0 < or_zero (q_timestamp d)"
    and now: "0 < now"
  shows "\<exists>k v s'. upsertQueueEntry s u now newId = Inr (Some k, s') \<and>
           searchingEntriesOf (uid u) s' = [(k, v)] \<and>
           q_userId v = uid u \<and> q_status v = ''searching'' \<and> q_timestamp v = Some now \<and>
           q_lastHeartbeat v = Some now \<and> q_sessionId v = sessionId u now \<and>
           (searchingEntriesOf (uid u) s = [] \<longrightarrow>
              k = newId \<and> v = newEntry u now \<and> queue s' = queue s @ [(newId, v)]) \<and>
           (searchingEntriesOf (uid u) s \<noteq> [] \<longrightarrow>
              (\<exists>dk. (k, dk) \<in> set (searchingEntriesOf (uid u) s) \<and> v = refresh u now dk \<and>
                 (\<forall>(i, d) \<in> set (searchingEntriesOf (uid u) s).
                     or_zero (q_timestamp d) \<le> or_zero (q_timestamp dk)))) \<and>
           (\<forall>now2 newId2. newId2 \<notin> fst ` set (queue s') \<and> newId2 \<noteq> [] \<longrightarrow>
              (\<exists>s2. upsertQueueEntry s' u now2 newId2 = Inr (Some k, s2) \<and>
                    searchingEntriesOf (uid u) s2 = [(k, refresh u now2 v)]))"
proof -
  from upsert_once [OF acc wf fresh pos, of now] obtain k v s' where
    run: "upsertQueueEntry s u now newId = Inr (Some k, s')" and
    one: "searchingEntriesOf (uid u) s' = [(k, v)]" and
    fields: "q_userId v = uid u" "q_status v = ''searching''" "q_timestamp v = Some now"
            "q_lastHeartbeat v = Some now" "q_sessionId v = sessionId u now" and
    created: "searchingEntriesOf (uid u) s = [] \<longrightarrow>
              k = newId \<and> v = newEntry u now \<and> queue s' = queue s @ [(newId, v)]" and
    refreshed: "searchingEntriesOf (uid u) s \<noteq> [] \<longrightarrow>
              (\<exists>dk. (k, dk) \<in> set (searchingEntriesOf (uid u) s) \<and> v = refresh u now dk \<and>
                 (\<forall>(i, d) \<in> set (searchingEntriesOf (uid u) s).
                     or_zero (q_timestamp d) \<le> or_zero (q_timestamp dk)))" and
    wf': "wf_store s'" and rej: "rejects s' = rejects s"
    by blast
  have acc': "\<forall>r. \<not> rejects s' r" using acc rej by simp
  have pos': "\<forall>(i, d) \<in> set (searchingEntriesOf (uid u) s'). 0 < or_zero (q_timestamp d)"
    using one fields(3) now by (simp add: or_zero_def)
  have again: "\<exists>s2. upsertQueueEntry s' u now2 newId2 = Inr (Some k, s2) \<and>
                    searchingEntriesOf (uid u) s2 = [(k, refresh u now2 v)]"
    if f2: "newId2 \<notin> fst ` set (queue s')" "newId2 \<noteq> []" for now2 newId2
  proof -
    from upsert_once [OF acc' wf' f2 pos', of now2] obtain k2 v2 s2 where
      run2: "upsertQueueEntry s' u now2 newId2 = Inr (Some k2, s2)" and
      one2: "searchingEntriesOf (uid u) s2 = [(k2, v2)]" and
      refreshed2: "searchingEntriesOf (uid u) s' \<noteq> [] \<longrightarrow>
              (\<exists>dk. (k2, dk) \<in> set (searchingEntriesOf (uid u) s') \<and> v2 = refresh u now2 dk \<and>
                 (\<forall>(i, d) \<in> set (searchingEntriesOf (uid u) s').
                     or_zero (q_timestamp d) \<le> or_zero (q_timestamp dk)))"
      by blast
    from refreshed2 one have "k2 = k" "v2 = refresh u now2 v" by auto
    with run2 one2 show ?thesis by blast
  qed
  show ?thesis
    using run one fields created refreshed again
    by (intro exI [of _ k] exI [of _ v] exI [of _ s']) blast
qed

theorem upsert_idempotent_witness:
  "upsertQueueEntry ex_dup ex_alice 52000 ''n1'' =
     Inr (Some ''q2'',
          ex_dup\<lparr>queue := [(''qb'', ex_entry ''bob'' 49000),
                            (''q2'', refresh ex_alice 52000 (ex_entry ''alice'' 45000))]\<rparr>) \<and>
   (\<exists>k v s'. upsertQueueEntry ex_dup ex_alice 52000 ''n1'' = Inr (Some k, s') \<and>
      searchingEntriesOf (uid ex_alice) s' = [(k, v)] \<and>
      (\<exists>s2. upsertQueueEntry s' ex_alice 52100 ''n2'' = Inr (Some k, s2) \<and>
            searchingEntriesOf (uid ex_alice) s2 = [(k, refresh ex_alice 52100 v)]))"
proof -
  have run: "upsertQueueEntry ex_dup ex_alice 52000 ''n1'' =
     Inr (Some ''q2'',
          ex_dup\<lparr>queue := [(''qb'', ex_entry ''bob'' 49000),
                            (''q2'', refresh ex_alice 52000 (ex_entry ''alice'' 45000))]\<rparr>)"
    by (simp add: upsertQueueEntry_def searchingEntriesOf_def updateDoc_def deleteDoc_def
        ex_dup_def ex_defs js_defs)
  have acc: "\<forall>r. \<not> rejects ex_dup r" by (simp add: ex_dup_def)
  have wf: "wf_store ex_dup" by (simp add: wf_store_def ex_dup_def)
  have fresh: "''n1'' \<notin> fst ` set (queue ex_dup)" "''n1'' \<noteq> []" by (simp_all add: ex_dup_def)
  have pos: "\<forall>(i, d) \<in> set (searchingEntriesOf (uid ex_alice) ex_dup). 0 < or_zero (q_timestamp d)"
    by (simp add: searchingEntriesOf_def ex_dup_def ex_defs js_defs)
  from upsert_idempotent [OF acc wf fresh pos, of 52000] obtain k v s' where
    r: "upsertQueueEntry ex_dup ex_alice 52000 ''n1'' = Inr (Some k, s')" and
    one: "searchingEntriesOf (uid ex_alice) s' = [(k, v)]" and
    again: "\<forall>now2 newId2. newId2 \<notin> fst ` set (queue s') \<and> newId2 \<noteq> [] \<longrightarrow>
              (\<exists>s2. upsertQueueEntry s' ex_alice now2 newId2 = Inr (Some k, s2) \<and>
                    searchingEntriesOf (uid ex_alice) s2 = [(k, refresh ex_alice now2 v)])"
    by auto
  from r run have s': "s' = ex_dup\<lparr>queue := [(''qb'', ex_entry ''bob'' 49000),
                            (''q2'', refresh ex_alice 52000 (ex_entry ''alice'' 45000))]\<rparr>"
    by auto
  have "''n2'' \<notin> fst ` set (queue s') \<and> ''n2'' \<noteq> []" by (simp add: s')
  with again have "\<exists>s2. upsertQueueEntry s' ex_alice 52100 ''n2'' = Inr (Some k, s2) \<and>
                    searchingEntriesOf (uid ex_alice) s2 = [(k, refresh ex_alice 52100 v)]"
    by blast
  with r one run show ?thesis by blast
qed

text \<open>
  The hypothesis on the timestamps is used. When the entries of the principal carry no
  timestamp (or 0), no \<open>ts > newestTimestamp\<close> holds, \<open>newestDocId\<close> stays null, every
  entry of the snapshot is deleted and the call returns null.
\<close>

lemma upsert_without_timestamp:
  "upsertQueueEntry
     (ex_store\<lparr>queue := [(''q0'', (ex_entry ''bob'' 49000)\<lparr>q_timestamp := None\<rparr>)]\<rparr>)
     ex_bob 52000 ''n1'' = Inr (None, ex_store\<lparr>queue := []\<rparr>)"
  by (simp add: upsertQueueEntry_def searchingEntriesOf_def deleteDoc_def ex_defs js_defs)

subsection \<open>What each path deletes\<close>

lemma deleteStaleQueue_frame [simp]:
  "rejects (deleteStaleQueue ds now s) = rejects s"
  "matches (deleteStaleQueue ds now s) = matches s"
  by (induction ds arbitrary: s) (auto simp: deleteDoc_def)

lemma deleteOldMatches_frame [simp]:
  "rejects (deleteOldMatches ms s) = rejects s"
  "queue (deleteOldMatches ms s) = queue s"
  by (induction ms arbitrary: s) (auto simp: deleteMatchDoc_def)

lemma deleteStaleQueue_lookup:
  "map_of (queue (deleteStaleQueue ds now s)) i =
     (if (\<exists>d. (i, d) \<in> set ds \<and> staleForCleanup now d) \<and> \<not> rejects s (DeleteQueue i)
      then None else map_of (queue s) i)"
proof (induction ds arbitrary: s)
  case Nil
  then show ?case by simp
next
  case (Cons x ds)
  obtain j data where x: "x = (j, data)" by (cases x)
  show ?case
  proof (cases "staleForCleanup now data \<and> \<not> rejects s (DeleteQueue j)")
    case True
    then have "deleteStaleQueue (x # ds) now s =
                 deleteStaleQueue ds now (s\<lparr>queue := AList.delete j (queue s)\<rparr>)"
      by (simp add: x deleteDoc_def)
    then show ?thesis
      using True by (auto simp: x Cons.IH delete_conv')
  next
    case False
    then have "deleteStaleQueue (x # ds) now s = deleteStaleQueue ds now s"
      by (auto simp: x deleteDoc_def)
    then show ?thesis
      using False by (auto simp: x Cons.IH)
  qed
qed

lemma deleteOldMatches_lookup:
  "map_of (matches (deleteOldMatches ms s)) i =
     (if i \<in> fst ` set ms \<and> \<not> rejects s (DeleteMatch i) then None else map_of (matches s) i)"
proof (induction ms arbitrary: s)
  case Nil
  then show ?case by simp
next
  case (Cons x ms)
  obtain j m where x: "x = (j, m)" by (cases x)
  show ?case
  proof (cases "rejects s (DeleteMatch j)")
    case True
    then have "deleteOldMatches (x # ms) s = deleteOldMatches ms s"
      by (simp add: x deleteMatchDoc_def)
    then show ?thesis
      using True by (auto simp: x Cons.IH)
  next
    case False
    then have "deleteOldMatches (x # ms) s =
                 deleteOldMatches ms (s\<lparr>matches := AList.delete j (matches s)\<rparr>)"
      by (simp add: x deleteMatchDoc_def)
    then show ?thesis
      using False by (auto simp: x Cons.IH delete_conv')
  qed
qed

lemma cleanupEverything_queue:
  assumes "distinct (map fst (queue s))" and "map_of (queue s) i = Some e"
  shows "map_of (queue (cleanupEverything s now)) i =
           (if \<not> rejects s ListQueue \<and> staleForCleanup now e \<and> \<not> rejects s (DeleteQueue i)
            then None else Some e)"
proof -
  from assms have "(\<exists>d. (i, d) \<in> set (queue s) \<and> staleForCleanup now d) = staleForCleanup now e"
    by (auto dest: eq_key_imp_eq_value)
  then show ?thesis
    using assms(2) by (simp add: cleanupEverything_def Let_def deleteStaleQueue_lookup)
qed

lemma cleanupEverything_matches:
  assumes "distinct (map fst (matches s))" and "map_of (matches s) i = Some m"
  shows "map_of (matches (cleanupEverything s now)) i =
           (if \<not> rejects s ListQueue \<and> \<not> rejects s ListMatches \<and>
               (case createdAt m of None \<Rightarrow> False | Some t \<Rightarrow> t < now - 60000) \<and>
               \<not> rejects s (DeleteMatch i)
            then None else Some m)"
proof -
  let ?old = "\<lambda>(i, m). case createdAt m of None \<Rightarrow> False | Some t \<Rightarrow> t < now - 60000"
  from assms have "(i, m) \<in> set (matches s)" by simp
  with assms(1) have "i \<in> fst ` set (filter ?old (matches s)) \<longleftrightarrow> ?old (i, m)"
    by (force simp: image_iff dest: eq_key_imp_eq_value)
  then show ?thesis
    using assms(2)
    by (simp add: cleanupEverything_def Let_def deleteOldMatches_lookup)
qed

lemma deleteOthers_lookup:
  "i \<notin> fst ` set ds \<Longrightarrow> map_of (queue (deleteOthers ds keep s)) i = map_of (queue s) i"
proof (induction ds arbitrary: s)
  case Nil
  then show ?case by simp
next
  case (Cons x ds)
  obtain j data where x: "x = (j, data)" by (cases x)
  with Cons.prems have ij: "i \<noteq> j" and rest: "i \<notin> fst ` set ds" by auto
  show ?case
  proof (cases "Some j \<noteq> keep \<and> \<not> rejects s (DeleteQueue j)")
    case True
    then have "deleteOthers (x # ds) keep s =
                 deleteOthers ds keep (s\<lparr>queue := AList.delete j (queue s)\<rparr>)"
      by (simp add: x deleteDoc_def)
    then show ?thesis
      using ij by (simp add: Cons.IH [OF rest])
  next
    case False
    then have "deleteOthers (x # ds) keep s = deleteOthers ds keep s"
      by (auto simp: x deleteDoc_def)
    then show ?thesis
      by (simp add: Cons.IH [OF rest])
  qed
qed

lemma newest_in_docs:
  assumes "fst (newest ds (None, 0)) = Some k"
  shows "k \<in> fst ` set ds"
proof -
  obtain r t' where n: "newest ds (None, 0) = (r, t')"
    by (cases "newest ds (None, 0)")
  with assms have r: "r = Some k" by simp
  from newest_spec [OF n] r show ?thesis
    by (auto split: if_splits simp: image_iff) force
qed

lemma upsert_foreign:
  assumes dist: "distinct (map fst (queue s))" and e: "map_of (queue s) i = Some e"
    and foreign: "q_userId e \<noteq> uid u" and fresh: "i \<noteq> newId"
    and run: "upsertQueueEntry s u now newId = Inr (k, s')"
  shows "map_of (queue s') i = Some e"
proof -
  let ?docs = "searchingEntriesOf (uid u) s"
  have notin: "i \<notin> fst ` set ?docs"
  proof
    assume "i \<in> fst ` set ?docs"
    then obtain d where "(i, d) \<in> set (queue s)" and "q_userId d = uid u"
      by (auto simp: searchingEntriesOf_def)
    with dist e foreign show False by simp
  qed
  have add: "map_of (queue s1) i = Some e" if "addDoc s newId d = Inr s1" for s1 d
    using that e fresh by (auto simp: addDoc_def update_conv' split: if_splits)
  show ?thesis
  proof (cases "?docs = []")
    case True
    with run add show ?thesis
      by (auto simp: upsertQueueEntry_def split: if_splits sum.splits)
  next
    case False
    let ?r = "fst (newest ?docs (None, 0))"
    have upd: "map_of (queue s1) i = Some e" if "?r = Some j" "updateDoc s j f = Inr s1" for s1 j f
    proof -
      from that(1) have "j \<in> fst ` set ?docs" by (rule newest_in_docs)
      with notin have "i \<noteq> j" by auto
      with that(2) e show ?thesis
        by (auto simp: updateDoc_def update_conv' split: if_splits option.splits)
    qed
    from run False obtain keep s1 where
      s': "s' = deleteOthers ?docs keep s1" and s1: "map_of (queue s1) i = Some e"
      using add upd e
      by (auto simp: upsertQueueEntry_def Let_def split: if_splits sum.splits option.splits)
    then show ?thesis
      using notin by (simp add: deleteOthers_lookup)
  qed
qed

lemma createMatchFromQueue_queue_frame:
  assumes "Some i \<noteq> currentQueueId (fst c)"
    and "createMatchFromQueue c s authUser opponent now mid = Inr (c', s')"
  shows "map_of (queue s') i = map_of (queue s) i"
proof (cases "s' = s")
  case True
  then show ?thesis by simp
next
  case False
  with assms(2) obtain cur where cur: "currentQueueId (fst c) = Some cur"
    and run: "runTransaction s authUser cur opponent now mid = Inr s'"
    by (cases c)
       (auto simp: createMatchFromQueue_def try_catch_def Let_def
             split: if_splits option.splits sum.splits)
  from runTransaction_commitD [OF run] obtain u oppData where
    "s' = s\<lparr>matches := AList.update mid (matchData u oppData opponent now) (matches s),
            queue := AList.delete cur (queue s)\<rparr>"
    by blast
  with assms(1) cur show ?thesis by simp
qed

lemma createMatchFromQueue_matches_frame:
  assumes "j \<noteq> mid"
    and "createMatchFromQueue c s authUser opponent now mid = Inr (c', s')"
  shows "map_of (matches s') j = map_of (matches s) j"
proof (cases "s' = s")
  case True
  then show ?thesis by simp
next
  case False
  with assms(2) obtain cur where
    run: "runTransaction s authUser cur opponent now mid = Inr s'"
    by (cases c)
       (auto simp: createMatchFromQueue_def try_catch_def Let_def
             split: if_splits option.splits sum.splits)
  from runTransaction_commitD [OF run] obtain u oppData where
    "s' = s\<lparr>matches := AList.update mid (matchData u oppData opponent now) (matches s),
            queue := AList.delete cur (queue s)\<rparr>"
    by blast
  with assms(1) show ?thesis by (simp add: update_conv')
qed

lemma leaveQueue_queue_frame:
  assumes "Some i \<noteq> currentQueueId (fst c)"
  shows "map_of (queue (snd (leaveQueue c s))) i = map_of (queue s) i"
  using assms
  by (auto simp: leaveQueue_def removeFromQueue_def deleteDoc_def split: option.splits)

lemma deleteOthers_frame [simp]:
  "rejects (deleteOthers ds keep s) = rejects s"
  "matches (deleteOthers ds keep s) = matches s"
  by (induction ds arbitrary: s) (auto simp: deleteDoc_def)

lemma upsert_matches:
  assumes "upsertQueueEntry s u now newId = Inr (k, s')"
  shows "matches s' = matches s"
  using assms
  by (auto simp: upsertQueueEntry_def Let_def updateDoc_def addDoc_def
           split: if_splits sum.splits option.splits)

lemma leaveQueue_matches: "matches (snd (leaveQueue c s)) = matches s"
  by (auto simp: leaveQueue_def removeFromQueue_def deleteDoc_def split: option.splits)

lemma removeFromQueue_queue_frame:
  "Some i \<noteq> q \<Longrightarrow> map_of (queue (removeFromQueue s q)) i = map_of (queue s) i"
  by (cases q) (auto simp: removeFromQueue_def deleteDoc_def delete_conv')

lemma removeFromQueue_matches: "matches (removeFromQueue s q) = matches s"
  by (auto simp: removeFromQueue_def deleteDoc_def split: option.splits)

lemma tryCandidate_frame:
  assumes "tryCandidate c s authUser userId now mid k data = (b, c', s')"
  shows "Some i \<noteq> currentQueueId (fst c) \<Longrightarrow> map_of (queue s') i = map_of (queue s) i"
    and "j \<noteq> mid \<Longrightarrow> map_of (matches s') j = map_of (matches s) j"
    and "\<not> b \<Longrightarrow> currentQueueId (fst c') = currentQueueId (fst c)"
proof -
  let ?c1 = "((fst c)\<lparr>isCreatingMatch := True\<rparr>, snd c)"
  let ?opp = "potentialOpponent k data"
  have alt: "createMatchFromQueue ?c1 s authUser ?opp now mid = Inr (c', s') \<and> b \<or>
             s' = s \<and> c' = ((fst c)\<lparr>isCreatingMatch := False\<rparr>, snd c) \<and> \<not> b"
    using assms
    by (cases c) (auto simp: tryCandidate_def Let_def split: if_splits sum.splits)
  show "map_of (queue s') i = map_of (queue s) i" if "Some i \<noteq> currentQueueId (fst c)"
  proof -
    from that have q: "Some i \<noteq> currentQueueId (fst ?c1)" by simp
    from alt show ?thesis
    proof (elim disjE conjE)
      assume "createMatchFromQueue ?c1 s authUser ?opp now mid = Inr (c', s')"
      with q show ?thesis by (rule createMatchFromQueue_queue_frame)
    next
      assume "s' = s"
      then show ?thesis by simp
    qed
  qed
  show "map_of (matches s') j = map_of (matches s) j" if "j \<noteq> mid"
    using alt
  proof (elim disjE conjE)
    assume "createMatchFromQueue ?c1 s authUser ?opp now mid = Inr (c', s')"
    with that show ?thesis by (rule createMatchFromQueue_matches_frame)
  next
    assume "s' = s"
    then show ?thesis by simp
  qed
  show "currentQueueId (fst c') = currentQueueId (fst c)" if "\<not> b"
    using alt that by auto
qed

lemma scanLoop_frame:
  assumes "scanLoop ds c s authUser userId now mid = (c', s')"
  shows "(Some i \<noteq> currentQueueId (fst c) \<longrightarrow> map_of (queue s') i = map_of (queue s) i) \<and>
         (j \<noteq> mid \<longrightarrow> map_of (matches s') j = map_of (matches s) j)"
  using assms
proof (induction ds c s authUser userId now mid rule: scanLoop.induct)
  case (1 c s authUser userId now mid)
  then show ?case by simp
next
  case (2 k data ds c s authUser userId now mid)
  show ?case
  proof (cases "isMatched (fst c) \<or> isCreatingMatch (fst c)")
    case True
    with "2.prems" show ?thesis by simp
  next
    case stop: False
    show ?thesis
    proof (cases "Some k = currentQueueId (fst c) \<or> q_userId data = userId")
      case True
      with stop "2.prems" "2.IH"(1,2) show ?thesis by (auto split: if_splits)
    next
      case False
      obtain b c1 s1 where t: "tryCandidate c s authUser userId now mid k data = (b, c1, s1)"
        by (cases "tryCandidate c s authUser userId now mid k data")
      note fr = tryCandidate_frame [OF t]
      show ?thesis
      proof (cases b)
        case True
        with t stop False "2.prems" have "c1 = c'" "s1 = s'" by auto
        with fr(1,2) show ?thesis by simp
      next
        case nb: False
        with t stop False "2.prems" have run: "scanLoop ds c1 s1 authUser userId now mid = (c', s')"
          by auto
        from fr(3) nb have cq: "currentQueueId (fst c1) = currentQueueId (fst c)" by simp
        from False have a: "Some k \<noteq> currentQueueId (fst c)" "q_userId data \<noteq> userId"
          by auto
        have "(Some i \<noteq> currentQueueId (fst c1) \<longrightarrow> map_of (queue s') i = map_of (queue s1) i) \<and>
              (j \<noteq> mid \<longrightarrow> map_of (matches s') j = map_of (matches s1) j)"
          using "2.IH"(3) [of b "(c1, s1)" c1 s1] stop a t nb run by simp
        with fr(1,2) cq show ?thesis by simp
      qed
    qed
  qed
qed

lemma listenerLoop_frame:
  assumes "listenerLoop changes c s authUser userId now mid = (c', s')"
  shows "(Some i \<noteq> currentQueueId (fst c) \<longrightarrow> map_of (queue s') i = map_of (queue s) i) \<and>
         (j \<noteq> mid \<longrightarrow> map_of (matches s') j = map_of (matches s) j)"
  using assms
proof (induction changes c s authUser userId now mid rule: listenerLoop.induct)
  case (1 c s authUser userId now mid)
  then show ?case by simp
next
  case (2 ty k data changes c s authUser userId now mid)
  show ?case
  proof (cases "ty = added \<and> \<not> isCreatingMatch (fst c)")
    case False
    with "2.prems" "2.IH"(4) show ?thesis by (auto split: if_splits)
  next
    case go: True
    show ?thesis
    proof (cases "Some k = currentQueueId (fst c) \<or> q_userId data = userId")
      case True
      with go "2.prems" "2.IH"(1,2) show ?thesis by (auto split: if_splits)
    next
      case False
      obtain b c1 s1 where t: "tryCandidate c s authUser userId now mid k data = (b, c1, s1)"
        by (cases "tryCandidate c s authUser userId now mid k data")
      note fr = tryCandidate_frame [OF t]
      show ?thesis
      proof (cases b)
        case True
        with t go False "2.prems" have "c1 = c'" "s1 = s'" by auto
        with fr(1,2) show ?thesis by simp
      next
        case nb: False
        with t go False "2.prems" have
          run: "listenerLoop changes c1 s1 authUser userId now mid = (c', s')"
          by auto
        from fr(3) nb have cq: "currentQueueId (fst c1) = currentQueueId (fst c)" by simp
        from False have a: "Some k \<noteq> currentQueueId (fst c)" "q_userId data \<noteq> userId"
          by auto
        have "(Some i \<noteq> currentQueueId (fst c1) \<longrightarrow> map_of (queue s') i = map_of (queue s1) i) \<and>
              (j \<noteq> mid \<longrightarrow> map_of (matches s') j = map_of (matches s1) j)"
          using "2.IH"(3) [of b "(c1, s1)" c1 s1] go a t nb run by simp
        with fr(1,2) cq show ?thesis by simp
      qed
    qed
  qed
qed

lemma discovery_frame:
  assumes "scanQueueForOpponents c s authUser userId now mid = (c', s') \<or>
           onQueueSnapshot changes c s authUser userId now mid = (c', s')"
  shows "(Some i \<noteq> currentQueueId (fst c) \<longrightarrow> map_of (queue s') i = map_of (queue s) i) \<and>
         (j \<noteq> mid \<longrightarrow> map_of (matches s') j = map_of (matches s) j)"
  using assms
proof
  assume run: "scanQueueForOpponents c s authUser userId now mid = (c', s')"
  show ?thesis
  proof (cases "s' = s")
    case True
    then show ?thesis by simp
  next
    case False
    with run have
      "scanLoop (filter (\<lambda>(i, d). q_status d = ''searching'') (queue s)) c s authUser userId now mid
         = (c', s')"
      by (auto simp: scanQueueForOpponents_def split: if_splits)
    then show ?thesis by (rule scanLoop_frame)
  qed
next
  assume run: "onQueueSnapshot changes c s authUser userId now mid = (c', s')"
  show ?thesis
  proof (cases "s' = s")
    case True
    then show ?thesis by simp
  next
    case False
    with run have "listenerLoop changes c s authUser userId now mid = (c', s')"
      by (auto simp: onQueueSnapshot_def split: if_splits)
    then show ?thesis by (rule listenerLoop_frame)
  qed
qed


text \<open>
  C6, as the code has it. Take a queue entry \<open>i\<close> and a match document \<open>j\<close> of the store.
  \<open>upsertQueueEntry\<close> leaves the entry as it is when it belongs to another user (the id
  of a document it adds being new); \<open>createMatchFromQueue\<close>, the scan and the queue
  listener that call it, \<open>removeFromQueue\<close> and \<open>leaveQueue\<close> leave it as it is unless
  it is the caller's tracked entry \<open>currentQueueId\<close>; none of them removes a match
  document. \<open>cleanupEverything\<close> looks at no owner: it removes the entry exactly when
  its \<open>lastHeartbeat || timestamp\<close> is more than 30000 ms old and the store accepts the
  listing and the delete, and the match exactly when its \<open>createdAt\<close> is more than
  60000 ms old and the store accepts.
\<close>

theorem deletion_targets:
  assumes "distinct (map fst (queue s))" and "map_of (queue s) i = Some e"
    and "distinct (map fst (matches s))" and "map_of (matches s) j = Some m"
  shows "(q_userId e \<noteq> uid u \<and> i \<noteq> newId \<and> upsertQueueEntry s u now newId = Inr (k, s1)
            \<longrightarrow> map_of (queue s1) i = Some e) \<and>
         (Some i \<noteq> currentQueueId (fst c) \<and>
          createMatchFromQueue c s authUser opponent now mid = Inr (c2, s2)
            \<longrightarrow> map_of (queue s2) i = Some e) \<and>
         (Some i \<noteq> currentQueueId (fst c) \<and>
          (scanQueueForOpponents c s authUser userId now mid = (c3, s3) \<or>
           onQueueSnapshot changes c s authUser userId now mid = (c3, s3))
            \<longrightarrow> map_of (queue s3) i = Some e) \<and>
         (Some i \<noteq> q \<longrightarrow> map_of (queue (removeFromQueue s q)) i = Some e) \<and>
         (Some i \<noteq> currentQueueId (fst c)
            \<longrightarrow> map_of (queue (snd (leaveQueue c s))) i = Some e) \<and>
         map_of (queue (cleanupEverything s now)) i =
           (if \<not> rejects s ListQueue \<and> staleForCleanup now e \<and> \<not> rejects s (DeleteQueue i)
            then None else Some e) \<and>
         (upsertQueueEntry s u now newId = Inr (k, s1) \<longrightarrow> matches s1 = matches s) \<and>
         (j \<noteq> mid \<and> createMatchFromQueue c s authUser opponent now mid = Inr (c2, s2)
            \<longrightarrow> map_of (matches s2) j = Some m) \<and>
         (j \<noteq> mid \<and>
          (scanQueueForOpponents c s authUser userId now mid = (c3, s3) \<or>
           onQueueSnapshot changes c s authUser userId now mid = (c3, s3))
            \<longrightarrow> map_of (matches s3) j = Some m) \<and>
         matches (removeFromQueue s q) = matches s \<and>
         matches (snd (leaveQueue c s)) = matches s \<and>
         map_of (matches (cleanupEverything s now)) j =
           (if \<not> rejects s ListQueue \<and> \<not> rejects s ListMatches \<and>
               (case createdAt m of None \<Rightarrow> False | Some t \<Rightarrow> t < now - 60000) \<and>
               \<not> rejects s (DeleteMatch j)
            then None else Some m)"
proof -
  have "q_userId e \<noteq> uid u \<and> i \<noteq> newId \<and> upsertQueueEntry s u now newId = Inr (k, s1)
            \<longrightarrow> map_of (queue s1) i = Some e"
    using upsert_foreign [OF assms(1,2)] by blast
  moreover have "Some i \<noteq> currentQueueId (fst c) \<and>
          createMatchFromQueue c s authUser opponent now mid = Inr (c2, s2)
            \<longrightarrow> map_of (queue s2) i = Some e"
    using createMatchFromQueue_queue_frame [of i c s authUser opponent now mid c2 s2] assms(2)
    by simp
  moreover have "Some i \<noteq> currentQueueId (fst c) \<and>
          (scanQueueForOpponents c s authUser userId now mid = (c3, s3) \<or>
           onQueueSnapshot changes c s authUser userId now mid = (c3, s3))
            \<longrightarrow> map_of (queue s3) i = Some e"
    using discovery_frame [of c s authUser userId now mid c3 s3 changes i j] assms(2) by auto
  moreover have "Some i \<noteq> q \<longrightarrow> map_of (queue (removeFromQueue s q)) i = Some e"
    using removeFromQueue_queue_frame [of i q s] assms(2) by simp
  moreover have "Some i \<noteq> currentQueueId (fst c)
            \<longrightarrow> map_of (queue (snd (leaveQueue c s))) i = Some e"
    using leaveQueue_queue_frame [of i c s] assms(2) by simp
  moreover note cleanupEverything_queue [OF assms(1,2), of now]
  moreover have "upsertQueueEntry s u now newId = Inr (k, s1) \<longrightarrow> matches s1 = matches s"
    using upsert_matches by blast
  moreover have "j \<noteq> mid \<and> createMatchFromQueue c s authUser opponent now mid = Inr (c2, s2)
            \<longrightarrow> map_of (matches s2) j = Some m"
    using createMatchFromQueue_matches_frame [of j mid c s authUser opponent now c2 s2] assms(4)
    by simp
  moreover have "j \<noteq> mid \<and>
          (scanQueueForOpponents c s authUser userId now mid = (c3, s3) \<or>
           onQueueSnapshot changes c s authUser userId now mid = (c3, s3))
            \<longrightarrow> map_of (matches s3) j = Some m"
    using discovery_frame [of c s authUser userId now mid c3 s3 changes i j] assms(4) by auto
  moreover note removeFromQueue_matches [of s q] leaveQueue_matches [of c s]
  moreover note cleanupEverything_matches [OF assms(3,4), of now]
  ultimately show ?thesis by blast
qed


theorem deletion_targets_witness:
  "map_of (queue (snd (leaveQueue (ex_service, ex_runtime) ex_abandoned))) ''qb'' =
     Some (ex_entry ''bob'' 49000) \<and>
   map_of (queue (snd (leaveQueue (ex_service, ex_runtime) ex_abandoned))) ''qa'' = None \<and>
   map_of (queue (cleanupEverything ex_abandoned 100000)) ''qb'' = None \<and>
   map_of (queue (cleanupEverything (ex_abandoned\<lparr>rejects := (\<lambda>r. r = DeleteQueue ''qb'')\<rparr>) 100000))
     ''qb'' = Some (ex_entry ''bob'' 49000) \<and>
   map_of (matches (cleanupEverything ex_abandoned 100000)) ''m0'' = None \<and>
   matches (snd (leaveQueue (ex_service, ex_runtime) ex_abandoned)) = matches ex_abandoned"
proof -
  have a: "distinct (map fst (queue ex_abandoned))" "distinct (map fst (matches ex_abandoned))"
    by (simp_all add: ex_abandoned_def)
  have b: "map_of (queue ex_abandoned) ''qb'' = Some (ex_entry ''bob'' 49000)"
    "map_of (matches ex_abandoned) ''m0'' = Some ex_carol_dave"
    by (simp_all add: ex_abandoned_def)
  have q: "Some ''qb'' \<noteq> currentQueueId (fst (ex_service, ex_runtime))"
    by (simp add: ex_defs)
  have st: "staleForCleanup 100000 (ex_entry ''bob'' 49000)"
    "case createdAt ex_carol_dave of None \<Rightarrow> False | Some t \<Rightarrow> t < 100000 - 60000"
    by (simp_all add: staleForCleanup_def ex_carol_dave_def ex_defs js_defs)
  have acc: "\<not> rejects ex_abandoned ListQueue" "\<not> rejects ex_abandoned (DeleteQueue ''qb'')"
    "\<not> rejects ex_abandoned ListMatches" "\<not> rejects ex_abandoned (DeleteMatch ''m0'')"
    by (simp_all add: ex_abandoned_def)
  from deletion_targets [OF a(1) b(1) a(2) b(2),
      where c = "(ex_service, ex_runtime)" and now = 100000] q st acc
  have "map_of (queue (snd (leaveQueue (ex_service, ex_runtime) ex_abandoned))) ''qb'' =
          Some (ex_entry ''bob'' 49000)"
    and "map_of (queue (cleanupEverything ex_abandoned 100000)) ''qb'' = None"
    and "map_of (matches (cleanupEverything ex_abandoned 100000)) ''m0'' = None"
    and "matches (snd (leaveQueue (ex_service, ex_runtime) ex_abandoned)) = matches ex_abandoned"
    by simp_all
  moreover have
    "map_of (queue (snd (leaveQueue (ex_service, ex_runtime) ex_abandoned))) ''qa'' = None"
    by (simp add: leaveQueue_def removeFromQueue_def deleteDoc_def ex_abandoned_def ex_defs)
  moreover have
    "map_of (queue (cleanupEverything (ex_abandoned\<lparr>rejects := (\<lambda>r. r = DeleteQueue ''qb'')\<rparr>) 100000))
       ''qb'' = Some (ex_entry ''bob'' 49000)"
    by (simp add: cleanupEverything_def staleForCleanup_def deleteDoc_def deleteMatchDoc_def
        ex_abandoned_def ex_carol_dave_def ex_defs js_defs)
  ultimately show ?thesis by simp
qed

text \<open>
  C6 as the specification states it fails: run over a store that accepts the requests,
  \<open>cleanupEverything\<close> deletes the stale queue entry of \<open>bob\<close> and the old match of
  \<open>carol\<close> and \<open>dave\<close>, whoever the caller is.
\<close>

theorem foreign_entry_deleted_counterexample:
  "map_option q_userId (map_of (queue ex_abandoned) ''qb'') = Some ''bob'' \<and>
   map_option (\<lambda>m. (p_userId (player1 m), p_userId (player2 m)))
     (map_of (matches ex_abandoned) ''m0'') = Some (''carol'', ''dave'') \<and>
   cleanupEverything ex_abandoned 100000 =
     ex_abandoned\<lparr>queue := [(''qa'', ex_entry ''alice'' 95000)], matches := []\<rparr>"
  by (simp add: cleanupEverything_def staleForCleanup_def deleteDoc_def deleteMatchDoc_def
      ex_abandoned_def ex_carol_dave_def ex_defs js_defs)

subsection \<open>Concurrent match creation\<close>

lemma runTransaction_needs_both:
  assumes "map_of (queue s) (o_id opponent) = None \<or> map_of (queue s) cur = None"
  shows "isl (runTransaction s currentUser cur opponent now mid)"
  using assms by (auto simp: runTransaction_def getDoc_def split: option.splits)

lemma runTransaction_gone:
  assumes "runTransaction s currentUser cur opponent now mid = Inr s'"
  shows "map_of (queue s') cur = None"
    and "map_of (queue s) q = None \<Longrightarrow> map_of (queue s') q = None"
  using runTransaction_commitD [OF assms] by (auto simp: delete_conv')

lemma heartbeatTick_gone:
  "map_of (queue s) q = None \<Longrightarrow> map_of (queue (snd (heartbeatTick c s now))) q = None"
  by (auto simp: heartbeatTick_def updateDoc_def update_conv' split: option.splits if_splits)

lemma heartbeatTick_matches: "matches (snd (heartbeatTick c s now)) = matches s"
  by (auto simp: heartbeatTick_def updateDoc_def split: option.splits if_splits)

lemma leaveQueue_gone:
  "map_of (queue s) q = None \<Longrightarrow> map_of (queue (snd (leaveQueue c s))) q = None"
  by (auto simp: leaveQueue_def removeFromQueue_def deleteDoc_def delete_conv' split: option.splits)

lemma runEvents_commit:
  assumes "runTransaction s currentUser cur opponent now mid = Inr s'"
  shows "fst (runEvents s (Attempt currentUser cur opponent now mid # evs)) = fst (runEvents s' evs)"
    and "snd (runEvents s (Attempt currentUser cur opponent now mid # evs)) =
           Suc (snd (runEvents s' evs))"
  using assms by (cases "runEvents s' evs"; simp)+

lemma runEvents_gone:
  "map_of (queue s) q = None \<Longrightarrow> map_of (queue (fst (runEvents s evs))) q = None"
proof (induction evs arbitrary: s)
  case Nil
  then show ?case by simp
next
  case (Cons ev evs)
  show ?case
  proof (cases ev)
    case (Attempt currentUser cur opponent now mid)
    show ?thesis
    proof (cases "runTransaction s currentUser cur opponent now mid")
      case (Inl e)
      with Attempt Cons show ?thesis by simp
    next
      case (Inr s')
      from runTransaction_gone(2) [OF Inr Cons.prems] have "map_of (queue s') q = None" .
      from Cons.IH [OF this] Attempt show ?thesis by (simp only: runEvents_commit(1) [OF Inr])
    qed
  next
    case (Heartbeat c now)
    from Cons.IH [OF heartbeatTick_gone [OF Cons.prems]] Heartbeat show ?thesis by simp
  next
    case (Leave c)
    from Cons.IH [OF leaveQueue_gone [OF Cons.prems]] Leave show ?thesis by simp
  qed
qed

lemma between_ids:
  assumes "between x qx y qy (Attempt currentUser cur opponent now mid)"
  shows "cur = qx \<and> o_id opponent = qy \<or> cur = qy \<and> o_id opponent = qx"
  using assms by auto

lemma runEvents_after_commit:
  assumes "map_of (queue s) qx = None \<or> map_of (queue s) qy = None"
    and "\<forall>ev \<in> set evs. between x qx y qy ev"
  shows "snd (runEvents s evs) = 0 \<and> matches (fst (runEvents s evs)) = matches s"
  using assms
proof (induction evs arbitrary: s)
  case Nil
  then show ?case by simp
next
  case (Cons ev evs)
  from Cons.prems have rest: "\<forall>ev \<in> set evs. between x qx y qy ev" by simp
  show ?case
  proof (cases ev)
    case (Attempt currentUser cur opponent now mid)
    with Cons.prems have "cur = qx \<and> o_id opponent = qy \<or> cur = qy \<and> o_id opponent = qx"
      by auto
    with Cons.prems(1) have
      "map_of (queue s) (o_id opponent) = None \<or> map_of (queue s) cur = None"
      by auto
    then have "isl (runTransaction s currentUser cur opponent now mid)"
      by (rule runTransaction_needs_both)
    then obtain e where "runTransaction s currentUser cur opponent now mid = Inl e"
      by (cases "runTransaction s currentUser cur opponent now mid") auto
    with Attempt Cons.IH [OF Cons.prems(1) rest] show ?thesis by simp
  next
    case (Heartbeat c now)
    from Cons.prems(1) have
      "map_of (queue (snd (heartbeatTick c s now))) qx = None \<or>
       map_of (queue (snd (heartbeatTick c s now))) qy = None"
      by (auto simp: heartbeatTick_gone)
    from Cons.IH [OF this rest] Heartbeat show ?thesis by (simp add: heartbeatTick_matches)
  next
    case (Leave c)
    from Cons.prems(1) have
      "map_of (queue (snd (leaveQueue c s))) qx = None \<or>
       map_of (queue (snd (leaveQueue c s))) qy = None"
      by (auto simp: leaveQueue_gone)
    from Cons.IH [OF this rest] Leave show ?thesis by (simp add: leaveQueue_matches)
  qed
qed

text \<open>
  The outcome of a schedule between two entries: either no transaction commits and the
  match collection is unchanged, or one commits, an entry of the pair is gone, and the
  match collection has gained one document, which references both principals.
\<close>

lemma runEvents_outcome:
  assumes "\<forall>ev \<in> set evs. between x qx y qy ev"
  shows "snd (runEvents s evs) = 0 \<and> matches (fst (runEvents s evs)) = matches s \<or>
         snd (runEvents s evs) = 1 \<and>
         (map_of (queue (fst (runEvents s evs))) qx = None \<or>
          map_of (queue (fst (runEvents s evs))) qy = None) \<and>
         (\<exists>mid m. matches (fst (runEvents s evs)) = AList.update mid m (matches s) \<and>
                  referencesBoth x y m)"
  using assms
proof (induction evs arbitrary: s)
  case Nil
  then show ?case by simp
next
  case (Cons ev evs)
  from Cons.prems have rest: "\<forall>ev \<in> set evs. between x qx y qy ev" by simp
  show ?case
  proof (cases ev)
    case (Attempt currentUser cur opponent now mid)
    with Cons.prems have bt: "between x qx y qy (Attempt currentUser cur opponent now mid)"
      by simp
    show ?thesis
    proof (cases "runTransaction s currentUser cur opponent now mid")
      case (Inl e)
      with Attempt Cons.IH [OF rest, of s] show ?thesis by simp
    next
      case (Inr s')
      from runTransaction_commitD [OF Inr] obtain u oppData where
        u: "currentUser = Some u" and
        s': "s' = s\<lparr>matches := AList.update mid (matchData u oppData opponent now) (matches s),
                      queue := AList.delete cur (queue s)\<rparr>"
        by blast
      from bt u have ref: "referencesBoth x y (matchData u oppData opponent now)"
        by (auto simp: referencesBoth_def matchData_def)
      from bt have "cur = qx \<or> cur = qy" by auto
      with runTransaction_gone(1) [OF Inr] have
        gone: "map_of (queue s') qx = None \<or> map_of (queue s') qy = None"
        by auto
      from runEvents_after_commit [OF gone rest] have
        zero: "snd (runEvents s' evs) = 0" and m: "matches (fst (runEvents s' evs)) = matches s'"
        by auto
      from gone have gone': "map_of (queue (fst (runEvents s' evs))) qx = None \<or>
                             map_of (queue (fst (runEvents s' evs))) qy = None"
        by (auto simp: runEvents_gone)
      obtain s'' where r: "runEvents s' evs = (s'', 0)"
        using zero by (cases "runEvents s' evs") auto
      have "runEvents s (ev # evs) = (s'', 1)"
        using Attempt Inr r by simp
      moreover have "matches s'' = AList.update mid (matchData u oppData opponent now) (matches s)"
        using m r s' by simp
      moreover have "map_of (queue s'') qx = None \<or> map_of (queue s'') qy = None"
        using gone' r by simp
      ultimately show ?thesis using ref by auto
    qed
  next
    case (Heartbeat c now)
    from Cons.IH [OF rest, of "snd (heartbeatTick c s now)"] Heartbeat show ?thesis
      by (simp add: heartbeatTick_matches)
  next
    case (Leave c)
    from Cons.IH [OF rest, of "snd (leaveQueue c s)"] Leave show ?thesis
      by (simp add: leaveQueue_matches)
  qed
qed

lemma createdMatches_none:
  assumes "distinct (map fst (matches s))" and "matches s' = matches s"
  shows "createdMatches x y s s' = []"
  using assms by (auto simp: createdMatches_def filter_empty_conv)

lemma createdMatches_update:
  assumes dist: "distinct (map fst (matches s))"
    and upd: "matches s' = AList.update mid m (matches s)"
  shows "createdMatches x y s s' =
           (if referencesBoth x y m \<and> map_of (matches s) mid \<noteq> Some m then [(mid, m)] else [])"
proof -
  let ?P = "\<lambda>(k, m'). referencesBoth x y m' \<and> map_of (matches s) k \<noteq> Some m'"
  let ?upd = "AList.update mid m (matches s)"
  have "filter ?P ?upd = filter (\<lambda>z. (case z of (k, m') \<Rightarrow> k = mid) \<and> ?P z) ?upd"
  proof (rule filter_cong [OF refl])
    fix z assume z: "z \<in> set ?upd"
    obtain k m' where zk: "z = (k, m')" by (cases z)
    show "?P z = ((case z of (k, m') \<Rightarrow> k = mid) \<and> ?P z)"
    proof (cases "k = mid")
      case True
      with zk show ?thesis by simp
    next
      case False
      with z zk dist have "(k, m') \<in> set (matches s)" by (simp add: in_update_iff)
      with dist have "map_of (matches s) k = Some m'" by simp
      with zk False show ?thesis by simp
    qed
  qed
  also have "\<dots> = filter ?P (filter (\<lambda>(k, m'). k = mid) ?upd)"
    by (simp only: filter_filter)
  also have "filter (\<lambda>(k, m'). k = mid) ?upd = [(mid, m)]"
  proof (rule filter_key_distinct)
    show "distinct (map fst ?upd)" using dist by (rule distinct_update)
    show "(mid, m) \<in> set ?upd" using dist by (simp add: in_update_iff)
  qed
  finally show ?thesis by (simp add: createdMatches_def upd)
qed


lemma runTransaction_commits:
  assumes "\<forall>r. \<not> rejects s r"
    and "map_of (queue s) (o_id opponent) = Some dOpp" and "map_of (queue s) cur = Some dCur"
    and "q_status dCur = ''searching''" and "q_status dOpp = ''searching''"
    and "now - lastSeen dCur \<le> 10000" and "now - lastSeen dOpp \<le> 10000"
    and "o_timestamp opponent = Some t"
  shows "runTransaction s (Some u) cur opponent now mid =
           Inr (s\<lparr>matches := AList.update mid (matchData u dOpp opponent now) (matches s),
                   queue := AList.delete cur (queue s)\<rparr>)"
  using assms by (simp add: runTransaction_def getDoc_def)

lemma runEvents_append:
  "runEvents s (xs @ ys) =
     (let (s1, n1) = runEvents s xs; (s2, n2) = runEvents s1 ys in (s2, n1 + n2))"
proof (induction xs arbitrary: s)
  case Nil
  then show ?case by (simp split: prod.splits)
next
  case (Cons ev xs)
  show ?case
  proof (cases ev)
    case (Attempt currentUser cur opponent now mid)
    then show ?thesis
      by (cases "runTransaction s currentUser cur opponent now mid")
         (simp_all add: Cons.IH split: prod.splits)
  next
    case (Heartbeat c now)
    then show ?thesis by (simp add: Cons.IH)
  next
    case (Leave c)
    then show ?thesis by (simp add: Cons.IH)
  qed
qed

lemma runEvents_append_fst_snd:
  "fst (runEvents s (xs @ ys)) = fst (runEvents (fst (runEvents s xs)) ys)"
  "snd (runEvents s (xs @ ys)) = snd (runEvents s xs) + snd (runEvents (fst (runEvents s xs)) ys)"
  by (simp_all add: runEvents_append split: prod.splits)

lemma runEvents_first_commit:
  assumes bt: "\<forall>ev \<in> set evs. between x qx y qy ev"
    and dist: "distinct (map fst (matches s))"
    and evs: "evs = pre @ Attempt (Some u) cur opponent now mid # rest"
    and acc: "\<forall>r. \<not> rejects (fst (runEvents s pre)) r"
    and dx: "map_of (queue (fst (runEvents s pre))) qx = Some dx"
    and dy: "map_of (queue (fst (runEvents s pre))) qy = Some dy"
    and st: "q_status dx = ''searching''" "q_status dy = ''searching''"
    and fr: "now - lastSeen dx \<le> 10000" "now - lastSeen dy \<le> 10000"
    and ts: "o_timestamp opponent = Some t"
    and fresh: "mid \<notin> fst ` set (matches s)"
  shows "snd (runEvents s evs) = 1 \<and>
         createdMatches x y s (fst (runEvents s evs)) =
           [(mid, matchData u (if o_id opponent = qy then dy else dx) opponent now)]"
proof -
  let ?s1 = "fst (runEvents s pre)"
  let ?d = "if o_id opponent = qy then dy else dx"
  let ?m = "matchData u ?d opponent now"
  let ?s2 = "?s1\<lparr>matches := AList.update mid ?m (matches ?s1), queue := AList.delete cur (queue ?s1)\<rparr>"
  from bt evs have pre: "\<forall>ev \<in> set pre. between x qx y qy ev"
    and rest: "\<forall>ev \<in> set rest. between x qx y qy ev"
    and att: "between x qx y qy (Attempt (Some u) cur opponent now mid)"
    by auto
  from runEvents_outcome [OF pre, of s] dx dy have
    n1: "snd (runEvents s pre) = 0" and m1: "matches ?s1 = matches s"
    by auto
  from att have ids: "cur = qx \<and> o_id opponent = qy \<or> cur = qy \<and> o_id opponent = qx"
    by auto
  have run: "runTransaction ?s1 (Some u) cur opponent now mid = Inr ?s2"
    using ids
  proof
    assume "cur = qx \<and> o_id opponent = qy"
    with dx dy st fr ts show ?thesis
      using runTransaction_commits [OF acc, of opponent dy cur dx now t u mid] by simp
  next
    assume a: "cur = qy \<and> o_id opponent = qx"
    show ?thesis
    proof (cases "qx = qy")
      case True
      with a dx dy st fr ts show ?thesis
        using runTransaction_commits [OF acc, of opponent dy cur dx now t u mid] by simp
    next
      case False
      with a dx dy st fr ts show ?thesis
        using runTransaction_commits [OF acc, of opponent dx cur dy now t u mid] by simp
    qed
  qed
  from ids have "map_of (queue ?s2) qx = None \<or> map_of (queue ?s2) qy = None"
    by (auto simp: delete_conv')
  from runEvents_after_commit [OF this rest] have
    n3: "snd (runEvents ?s2 rest) = 0" and m3: "matches (fst (runEvents ?s2 rest)) = matches ?s2"
    by auto
  have f: "fst (runEvents s evs) = fst (runEvents ?s2 rest)"
    unfolding evs runEvents_append_fst_snd(1) by (simp only: runEvents_commit(1) [OF run])
  have n: "snd (runEvents s evs) = 1"
    unfolding evs runEvents_append_fst_snd(2) by (simp only: runEvents_commit(2) [OF run] n1 n3)
  have upd: "matches (fst (runEvents s evs)) = AList.update mid ?m (matches s)"
    using f m3 m1 by simp
  from att have ref: "referencesBoth x y ?m"
    by (auto simp: referencesBoth_def matchData_def)
  from fresh have "map_of (matches s) mid = None"
    by (simp add: map_of_eq_None_iff)
  with createdMatches_update [OF dist upd, of x y] ref n show ?thesis by simp
qed

text \<open>
  C1. Let \<open>x\<close> and \<open>y\<close> be two searching principals with queue entries \<open>qx\<close> and \<open>qy\<close>.
  In every schedule of their match-creation attempts on each other, in any order and
  number and interleaved with heartbeats and departures, at most one transaction commits
  and at most one match document referencing both \<open>x\<close> and \<open>y\<close> is created. When some
  attempt of the schedule finds both entries present, \<open>searching\<close> and at most 10000 ms
  old, the store accepts its requests, the cached copy of the candidate carries a
  timestamp (the store refuses to write an undefined field) and the id of the new match
  document is fresh, exactly one is created: the document which that attempt writes, with
  the initiator as \<open>player1\<close> and the candidate as \<open>player2\<close>; every other attempt aborts.
\<close>

theorem exactly_one_match:
  assumes "\<forall>ev \<in> set evs. between x qx y qy ev" and "distinct (map fst (matches s))"
  shows "snd (runEvents s evs) \<le> 1 \<and>
         length (createdMatches x y s (fst (runEvents s evs))) \<le> 1 \<and>
         (\<forall>pre u cur opponent now mid rest dx dy t.
            evs = pre @ Attempt (Some u) cur opponent now mid # rest \<and>
            (\<forall>r. \<not> rejects (fst (runEvents s pre)) r) \<and>
            map_of (queue (fst (runEvents s pre))) qx = Some dx \<and>
            map_of (queue (fst (runEvents s pre))) qy = Some dy \<and>
            q_status dx = ''searching'' \<and> q_status dy = ''searching'' \<and>
            now - lastSeen dx \<le> 10000 \<and> now - lastSeen dy \<le> 10000 \<and>
            o_timestamp opponent = Some t \<and> mid \<notin> fst ` set (matches s)
            \<longrightarrow> snd (runEvents s evs) = 1 \<and>
                createdMatches x y s (fst (runEvents s evs)) =
                  [(mid, matchData u (if o_id opponent = qy then dy else dx) opponent now)])"
proof -
  from runEvents_outcome [OF assms(1), of s] consider
    (none) "snd (runEvents s evs) = 0" "matches (fst (runEvents s evs)) = matches s"
    | (one) mid m where "snd (runEvents s evs) = 1"
        "matches (fst (runEvents s evs)) = AList.update mid m (matches s)"
    by auto
  then have
    "snd (runEvents s evs) \<le> 1 \<and> length (createdMatches x y s (fst (runEvents s evs))) \<le> 1"
  proof cases
    case none
    with createdMatches_none [OF assms(2), of "fst (runEvents s evs)" x y] show ?thesis by simp
  next
    case one
    with createdMatches_update [OF assms(2), of "fst (runEvents s evs)" mid m x y]
    show ?thesis by simp
  qed
  moreover have "snd (runEvents s evs) = 1 \<and>
                createdMatches x y s (fst (runEvents s evs)) =
                  [(mid, matchData u (if o_id opponent = qy then dy else dx) opponent now)]"
    if "evs = pre @ Attempt (Some u) cur opponent now mid # rest"
      "\<forall>r. \<not> rejects (fst (runEvents s pre)) r"
      "map_of (queue (fst (runEvents s pre))) qx = Some dx"
      "map_of (queue (fst (runEvents s pre))) qy = Some dy"
      "q_status dx = ''searching''" "q_status dy = ''searching''"
      "now - lastSeen dx \<le> 10000" "now - lastSeen dy \<le> 10000"
      "o_timestamp opponent = Some t" "mid \<notin> fst ` set (matches s)"
    for pre u cur opponent now mid rest dx dy t
    using assms that by (rule runEvents_first_commit)
  ultimately show ?thesis by blast
qed

theorem exactly_one_match_witness:
  "snd (runEvents ex_store ex_schedule) = 1 \<and>
   createdMatches ''alice'' ''bob'' ex_store (fst (runEvents ex_store ex_schedule)) =
     [(''m2'', matchData ex_bob (ex_entry ''alice'' 50000) ex_cached_alice 51000)] \<and>
   snd (runEvents ex_store (tl ex_schedule)) = 1 \<and>
   createdMatches ''alice'' ''bob'' ex_store (fst (runEvents ex_store (tl ex_schedule))) =
     [(''m1'', matchData ex_alice ((ex_entry ''bob'' 49000)\<lparr>q_rating := Some 1500\<rparr>) ex_cached 51002)]"
proof -
  have b0: "\<forall>ev \<in> set ex_schedule. between ''alice'' ''qa'' ''bob'' ''qb'' ev"
    by (simp add: ex_schedule_def ex_cached_alice_def ex_defs)
  then have b: "\<forall>ev \<in> set (tl ex_schedule). between ''alice'' ''qa'' ''bob'' ''qb'' ev"
    by (simp add: ex_schedule_def)
  have d: "distinct (map fst (matches ex_store))"
    by (simp add: ex_defs)
  note first = exactly_one_match [OF b0 d, THEN conjunct2, THEN conjunct2, rule_format,
      where pre = "[]" and u = ex_bob and cur = "''qb''" and opponent = ex_cached_alice
        and now = 51000 and mid = "''m2''" and rest = "tl ex_schedule"
        and dx = "ex_entry ''alice'' 50000"
        and dy = "(ex_entry ''bob'' 49000)\<lparr>q_rating := Some 1500\<rparr>" and t = 50000]
  have one: "snd (runEvents ex_store ex_schedule) = 1 \<and>
     createdMatches ''alice'' ''bob'' ex_store (fst (runEvents ex_store ex_schedule)) =
       [(''m2'', matchData ex_bob (ex_entry ''alice'' 50000) ex_cached_alice 51000)]"
  proof -
    have "snd (runEvents ex_store ex_schedule) = 1 \<and>
      createdMatches ''alice'' ''bob'' ex_store (fst (runEvents ex_store ex_schedule)) =
       [(''m2'', matchData ex_bob
           (if o_id ex_cached_alice = ''qb'' then (ex_entry ''bob'' 49000)\<lparr>q_rating := Some 1500\<rparr>
            else ex_entry ''alice'' 50000) ex_cached_alice 51000)]"
      by (rule first) (simp add: ex_schedule_def ex_cached_alice_def ex_defs js_defs)
    then show ?thesis by (simp add: ex_cached_alice_def)
  qed
  note later = exactly_one_match [OF b d, THEN conjunct2, THEN conjunct2, rule_format,
      where pre = "[Heartbeat (ex_service, ex_runtime) 51001]" and u = ex_alice
        and cur = "''qa''" and opponent = ex_cached and now = 51002 and mid = "''m1''"
        and rest = "[Attempt (Some ex_bob) ''qb'' ex_cached_alice 51003 ''m3'']"
        and dx = "(ex_entry ''alice'' 50000)\<lparr>q_lastHeartbeat := Some 51001\<rparr>"
        and dy = "(ex_entry ''bob'' 49000)\<lparr>q_rating := Some 1500\<rparr>" and t = 49000]
  have two: "snd (runEvents ex_store (tl ex_schedule)) = 1 \<and>
     createdMatches ''alice'' ''bob'' ex_store (fst (runEvents ex_store (tl ex_schedule))) =
       [(''m1'', matchData ex_alice ((ex_entry ''bob'' 49000)\<lparr>q_rating := Some 1500\<rparr>)
                  ex_cached 51002)]"
  proof -
    have "snd (runEvents ex_store (tl ex_schedule)) = 1 \<and>
      createdMatches ''alice'' ''bob'' ex_store (fst (runEvents ex_store (tl ex_schedule))) =
       [(''m1'', matchData ex_alice
           (if o_id ex_cached = ''qb'' then (ex_entry ''bob'' 49000)\<lparr>q_rating := Some 1500\<rparr>
            else (ex_entry ''alice'' 50000)\<lparr>q_lastHeartbeat := Some 51001\<rparr>) ex_cached 51002)]"
      by (rule later)
         (simp add: ex_schedule_def heartbeatTick_def updateDoc_def ex_defs js_defs)
    then show ?thesis by (simp add: ex_cached_def)
  qed
  from one two show ?thesis by simp
qed

end
